theory Spec2Isabelle
  imports Complex_Main "HOL-Library.AList" "HOL-Library.Product_Lexorder"
begin

section \<open>Machine integers and errors\<close>

text \<open>
  All node identifiers, distances and counters of the program are \<open>uint32_t\<close>. They are
  modelled as natural numbers; where an operation of the source can wrap, the reduction
  modulo \<open>2 ^ 32\<close> is written out. \<open>UINT32_MAX\<close> doubles as the "no route" sentinel and
  as the infinite distance.
\<close>

definition UINT32_MAX :: nat where
  "UINT32_MAX = 4294967295"

text \<open>The constant \<open>INF\<close> of the source (the name is taken by lattice syntax).\<close>

definition INF_dist :: nat where
  "INF_dist = UINT32_MAX"

text \<open>
  Indexing a \<open>std::vector\<close> with \<open>operator[]\<close> outside its range is undefined behaviour in
  the source. Every such access is modelled as a checked access that yields
  \<open>Inl OutOfBounds\<close>; \<open>std::map::at\<close> on a missing key throws, which is \<open>Inl KeyMissing\<close>;
  a failed \<open>NS_ASSERT_MSG\<close> aborts, which is \<open>Inl AssertFailed\<close>. A string that is not
  an IPv4 address breaks the contract of \<open>Ipv4AddressHelper::SetBase\<close>; what the simulator
  does with it is not part of the sources, and the model stops there with
  \<open>Inl InvalidAddress\<close>.
\<close>

datatype error = OutOfBounds | KeyMissing | AssertFailed | InvalidAddress

section \<open>Topology generator (isl-topology-generator)\<close>

text \<open>
  \<open>struct IslTopology\<close>. The \<open>std::map\<close> from satellite id to neighbour vector is an
  association list read with \<open>map_of\<close> and written with \<open>AList.update\<close>.
\<close>

record IslTopology =
  numSatellites :: nat
  numLinks :: nat
  neighbors :: "(nat \<times> nat list) list"

definition NUM_PLANES :: nat where
  "NUM_PLANES = 3"

definition SATS_PER_PLANE :: nat where
  "SATS_PER_PLANE = 8"

text \<open>The neighbour vector built in the body of the two nested loops.\<close>

definition sat_neighbors :: "nat \<Rightarrow> nat \<Rightarrow> nat list" where
  "sat_neighbors plane idx =
     (let forward = plane * SATS_PER_PLANE + ((idx + 1) mod SATS_PER_PLANE);
          backward = plane * SATS_PER_PLANE + ((idx + SATS_PER_PLANE - 1) mod SATS_PER_PLANE);
          nextPlane = (plane + 1) mod NUM_PLANES;
          prevPlane = (plane + NUM_PLANES - 1) mod NUM_PLANES;
          rightNeighbor = nextPlane * SATS_PER_PLANE + idx;
          leftNeighbor = prevPlane * SATS_PER_PLANE + idx
      in [forward, backward, rightNeighbor, leftNeighbor])"

definition generate_neighbors :: "(nat \<times> nat list) list \<Rightarrow> (nat \<times> nat list) list" where
  "generate_neighbors nbrs0 =
     fold (\<lambda>plane nbrs.
        fold (\<lambda>idx nbrs'.
           AList.update (plane * SATS_PER_PLANE + idx) (sat_neighbors plane idx) nbrs')
          [0..<SATS_PER_PLANE] nbrs)
       [0..<NUM_PLANES] nbrs0"

text \<open>
  The \<open>std::set\<close> of normalised pairs is a duplicate-free list; its size is the length.
\<close>

definition normalize_link :: "nat \<Rightarrow> nat \<Rightarrow> nat \<times> nat" where
  "normalize_link satId neighbor =
     (if satId < neighbor then (satId, neighbor) else (neighbor, satId))"

definition unique_links :: "(nat \<times> nat list) list \<Rightarrow> (nat \<times> nat) list" where
  "unique_links nbrs =
     fold (\<lambda>(satId, ns) uniqueLinks.
        fold (\<lambda>neighbor ul. List.insert (normalize_link satId neighbor) ul) ns uniqueLinks)
       nbrs []"

definition GenerateWalkerDeltaTopology :: "nat \<Rightarrow> nat \<Rightarrow> IslTopology" where
  "GenerateWalkerDeltaTopology numSats neighborsPerSat =
     (let topology = \<lparr>numSatellites = numSats, numLinks = 0, neighbors = []\<rparr>
      in if numSats \<noteq> 24 then topology
         else if neighborsPerSat \<noteq> 4 then topology
         else let nbrs = generate_neighbors (neighbors topology)
              in topology\<lparr>neighbors := nbrs, numLinks := length (unique_links nbrs)\<rparr>)"

text \<open>The neighbour vector of a node; a node without map entry has none.\<close>

definition nbrs_of :: "IslTopology \<Rightarrow> nat \<Rightarrow> nat list" where
  "nbrs_of t u = (case map_of (neighbors t) u of None \<Rightarrow> [] | Some ns \<Rightarrow> ns)"


subsection \<open>Breadth-first search and mesh connectivity\<close>

definition unvisited_count :: "bool list \<Rightarrow> nat" where
  "unvisited_count vs = length (filter Not vs)"

lemma unvisited_count_mark:
  "i < length vs \<Longrightarrow> \<not> vs ! i \<Longrightarrow> unvisited_count (vs[i := True]) < unvisited_count vs"
  unfolding unvisited_count_def
proof (induction vs arbitrary: i)
  case Nil
  then show ?case by simp
next
  case (Cons a vs)
  then show ?case by (cases i) auto
qed

text \<open>
  The loop \<open>for (uint32_t neighbor : it->second)\<close> of \<open>BFS\<close>, on the state
  \<open>(visited, q)\<close>; \<open>q.push\<close> appends at the back of the queue.
\<close>

fun bfs_scan :: "nat \<Rightarrow> nat list \<Rightarrow> bool list \<times> nat list \<Rightarrow> error + (bool list \<times> nat list)" where
  "bfs_scan n [] s = Inr s"
| "bfs_scan n (neighbor # rest) (visited, q) =
     (if neighbor < n then
        (if length visited \<le> neighbor then Inl OutOfBounds
         else if \<not> visited ! neighbor
           then bfs_scan n rest (visited[neighbor := True], q @ [neighbor])
         else bfs_scan n rest (visited, q))
      else bfs_scan n rest (visited, q))"

lemma bfs_scan_measure:
  "bfs_scan n ns (visited, q) = Inr (visited', q') \<Longrightarrow>
     2 * unvisited_count visited' + length q' \<le> 2 * unvisited_count visited + length q"
proof (induction ns arbitrary: visited q)
  case Nil
  then show ?case by simp
next
  case (Cons neighbor rest)
  show ?case
  proof (cases "neighbor < n \<and> neighbor < length visited \<and> \<not> visited ! neighbor")
    case True
    then have "bfs_scan n rest (visited[neighbor := True], q @ [neighbor]) = Inr (visited', q')"
      using Cons.prems by simp
    from Cons.IH [OF this] unvisited_count_mark [of neighbor visited] True
    show ?thesis by simp
  next
    case False
    then have "bfs_scan n rest (visited, q) = Inr (visited', q')"
      using Cons.prems by (auto split: if_splits)
    from Cons.IH [OF this] show ?thesis .
  qed
qed

text \<open>The loop \<open>while (!q.empty())\<close> of \<open>BFS\<close>.\<close>

function bfs_loop :: "IslTopology \<Rightarrow> bool list \<Rightarrow> nat list \<Rightarrow> error + bool list" where
  "bfs_loop t visited [] = Inr visited"
| "bfs_loop t visited (current # q) =
     (case map_of (neighbors t) current of
        None \<Rightarrow> bfs_loop t visited q
      | Some ns \<Rightarrow>
          (case bfs_scan (numSatellites t) ns (visited, q) of
             Inl e \<Rightarrow> Inl e
           | Inr (visited', q') \<Rightarrow> bfs_loop t visited' q'))"
  by pat_completeness auto
termination
proof (relation "measure (\<lambda>(t, visited, q). 2 * unvisited_count visited + length q)")
  show "wf (measure (\<lambda>(t, visited, q). 2 * unvisited_count visited + length q))"
    by simp
next
  fix t :: IslTopology and visited :: "bool list" and current :: nat and q :: "nat list"
  show "((t, visited, q), (t, visited, current # q))
          \<in> measure (\<lambda>(t, visited, q). 2 * unvisited_count visited + length q)"
    by simp
next
  fix t :: IslTopology and visited :: "bool list" and current :: nat and q :: "nat list"
    and ns :: "nat list" and s :: "bool list \<times> nat list" and visited' :: "bool list"
    and q' :: "nat list"
  assume "bfs_scan (numSatellites t) ns (visited, q) = Inr s" and "(visited', q') = s"
  then have "bfs_scan (numSatellites t) ns (visited, q) = Inr (visited', q')"
    by simp
  from bfs_scan_measure [OF this]
  show "((t, visited', q'), (t, visited, current # q))
          \<in> measure (\<lambda>(t, visited, q). 2 * unvisited_count visited + length q)"
    by simp
qed

definition BFS :: "IslTopology \<Rightarrow> nat \<Rightarrow> error + bool list" where
  "BFS topology src =
     (if numSatellites topology \<le> src then Inr (replicate (numSatellites topology) False)
      else bfs_loop topology ((replicate (numSatellites topology) False)[src := True]) [src])"

text \<open>
  \<open>ComputeMeshConnectivity\<close>. \<open>totalPairs\<close> is the \<open>uint32_t\<close> product
  \<open>numSatellites * (numSatellites - 1)\<close>; \<open>std::count\<close> yields a signed 64-bit
  count, so \<open>reachablePairs += count - 1\<close> is the sum reduced modulo \<open>2 ^ 32\<close>. The
  quotient of the two counters, converted to \<open>double\<close>, is given as a real number.
\<close>

fun count_reachable_pairs :: "IslTopology \<Rightarrow> nat list \<Rightarrow> nat \<Rightarrow> error + nat" where
  "count_reachable_pairs t [] reachablePairs = Inr reachablePairs"
| "count_reachable_pairs t (src # srcs) reachablePairs =
     (case BFS t src of
        Inl e \<Rightarrow> Inl e
      | Inr reachable \<Rightarrow>
          count_reachable_pairs t srcs
            ((reachablePairs + length (filter (\<lambda>b. b = True) reachable) + (2 ^ 32 - 1))
               mod 2 ^ 32))"

definition totalPairs :: "IslTopology \<Rightarrow> nat" where
  "totalPairs t =
     (numSatellites t * ((numSatellites t + (2 ^ 32 - 1)) mod 2 ^ 32)) mod 2 ^ 32"

definition ComputeMeshConnectivity :: "IslTopology \<Rightarrow> error + real" where
  "ComputeMeshConnectivity topology =
     (if totalPairs topology = 0 then Inr 0
      else (case count_reachable_pairs topology [0..<numSatellites topology] 0 of
              Inl e \<Rightarrow> Inl e
            | Inr reachablePairs \<Rightarrow> Inr (real reachablePairs / real (totalPairs topology))))"

subsection \<open>Single-source hop counts\<close>

text \<open>
  \<open>Dijkstra\<close>, the array version of the topology generator. The inner scan
  \<open>for (uint32_t v = 0; v < numSatellites; ++v)\<close> for the unvisited node of least distance,
  on the state \<open>(u, minDist)\<close>.
\<close>

fun find_min_unvisited :: "nat list \<Rightarrow> bool list \<Rightarrow> nat list \<Rightarrow> nat \<times> nat \<Rightarrow> error + (nat \<times> nat)" where
  "find_min_unvisited dists visited [] s = Inr s"
| "find_min_unvisited dists visited (v # vs) (u, minDist) =
     (if length visited \<le> v then Inl OutOfBounds
      else if \<not> visited ! v then
        (if length dists \<le> v then Inl OutOfBounds
         else if dists ! v < minDist then find_min_unvisited dists visited vs (v, dists ! v)
         else find_min_unvisited dists visited vs (u, minDist))
      else find_min_unvisited dists visited vs (u, minDist))"

text \<open>The loop \<open>for (uint32_t neighbor : it->second)\<close> of \<open>Dijkstra\<close>, on \<open>dist\<close>.\<close>

fun dijkstra_update :: "nat \<Rightarrow> nat \<Rightarrow> bool list \<Rightarrow> nat list \<Rightarrow> nat list \<Rightarrow> error + nat list" where
  "dijkstra_update n u visited [] dists = Inr dists"
| "dijkstra_update n u visited (neighbor # rest) dists =
     (if neighbor < n then
        (if length visited \<le> neighbor then Inl OutOfBounds
         else if \<not> visited ! neighbor then
           (if length dists \<le> u \<or> length dists \<le> neighbor then Inl OutOfBounds
            else if (dists ! u + 1) mod 2 ^ 32 < dists ! neighbor
              then dijkstra_update n u visited rest
                     (dists[neighbor := (dists ! u + 1) mod 2 ^ 32])
            else dijkstra_update n u visited rest dists)
         else dijkstra_update n u visited rest dists)
      else dijkstra_update n u visited rest dists)"

text \<open>
  The loop \<open>for (uint32_t i = 0; i < numSatellites; ++i)\<close>, left by \<open>break\<close> when no
  unvisited node with a finite distance remains.
\<close>

fun dijkstra_rounds :: "IslTopology \<Rightarrow> nat list \<Rightarrow> nat list \<Rightarrow> bool list \<Rightarrow> error + nat list" where
  "dijkstra_rounds t [] dists visited = Inr dists"
| "dijkstra_rounds t (i # rest) dists visited =
     (case find_min_unvisited dists visited [0..<numSatellites t] (INF_dist, INF_dist) of
        Inl e \<Rightarrow> Inl e
      | Inr (u, minDist) \<Rightarrow>
          if u = INF_dist then Inr dists
          else if length visited \<le> u then Inl OutOfBounds
          else (case map_of (neighbors t) u of
                  None \<Rightarrow> dijkstra_rounds t rest dists (visited[u := True])
                | Some ns \<Rightarrow>
                    (case dijkstra_update (numSatellites t) u (visited[u := True]) ns dists of
                       Inl e \<Rightarrow> Inl e
                     | Inr dists' \<Rightarrow> dijkstra_rounds t rest dists' (visited[u := True]))))"

definition Dijkstra :: "IslTopology \<Rightarrow> nat \<Rightarrow> error + nat list" where
  "Dijkstra topology src =
     (if numSatellites topology \<le> src
      then Inr (replicate (numSatellites topology) INF_dist)
      else dijkstra_rounds topology [0..<numSatellites topology]
             ((replicate (numSatellites topology) INF_dist)[src := 0])
             (replicate (numSatellites topology) False))"

section \<open>Static routing (static-isl-routing)\<close>

text \<open>
  \<open>class RoutingTables\<close>: the nested \<open>std::map\<close> \<open>m_nextHop[src][dst]\<close>.
\<close>

record RoutingTables =
  m_nextHop :: "nat \<Rightarrow> (nat \<Rightarrow> nat option) option"

definition empty_routes :: RoutingTables where
  "empty_routes = \<lparr>m_nextHop = Map.empty\<rparr>"

definition GetNextHop :: "RoutingTables \<Rightarrow> nat \<Rightarrow> nat \<Rightarrow> nat" where
  "GetNextHop routes src dst =
     (case m_nextHop routes src of
        None \<Rightarrow> UINT32_MAX
      | Some inner \<Rightarrow> (case inner dst of None \<Rightarrow> UINT32_MAX | Some nextHop \<Rightarrow> nextHop))"

text \<open>\<open>m_nextHop[src][dst] = nextHop\<close>: \<open>operator[]\<close> creates the inner map when absent.\<close>

definition SetNextHop :: "RoutingTables \<Rightarrow> nat \<Rightarrow> nat \<Rightarrow> nat \<Rightarrow> RoutingTables" where
  "SetNextHop routes src dst nextHop =
     routes\<lparr>m_nextHop := (m_nextHop routes)
        (src \<mapsto> (case m_nextHop routes src of None \<Rightarrow> Map.empty | Some inner \<Rightarrow> inner)
                  (dst \<mapsto> nextHop))\<rparr>"

subsection \<open>The priority queue\<close>

text \<open>
  \<open>std::priority_queue<PQNode, std::vector<PQNode>, std::greater<PQNode>>\<close> is held as the
  list of its elements: \<open>top\<close> is the least pair in the lexicographic order of
  \<open>std::pair\<close>, \<open>pop\<close> removes one copy of it.
\<close>

type_synonym PQNode = "nat \<times> nat"

definition pq_top :: "PQNode list \<Rightarrow> PQNode" where
  "pq_top pq = Min (set pq)"

definition pq_pop :: "PQNode list \<Rightarrow> PQNode list" where
  "pq_pop pq = remove1 (Min (set pq)) pq"

definition pq_push :: "PQNode \<Rightarrow> PQNode list \<Rightarrow> PQNode list" where
  "pq_push x pq = x # pq"

subsection \<open>Dijkstra from one source\<close>

text \<open>
  The relaxation loop \<open>for (uint32_t v : neighbors)\<close> over the neighbours of \<open>u\<close>. The
  state is \<open>(dist, prev, pq)\<close>, the vector \<open>dist\<close> being named \<open>dists\<close>; \<open>visited\<close> does not change inside the loop.
\<close>

fun relax :: "nat \<Rightarrow> bool list \<Rightarrow> nat list \<Rightarrow> nat list \<times> nat list \<times> PQNode list
    \<Rightarrow> error + (nat list \<times> nat list \<times> PQNode list)" where
  "relax u visited [] s = Inr s"
| "relax u visited (v # vs) (dists, prev, pq) =
     (if length visited \<le> v then Inl OutOfBounds
      else if \<not> visited ! v then
        (if length dists \<le> u \<or> length dists \<le> v then Inl OutOfBounds
         else if (dists ! u + 1) mod 2 ^ 32 < dists ! v then
           (if length prev \<le> v then Inl OutOfBounds
            else relax u visited vs
              (dists[v := (dists ! u + 1) mod 2 ^ 32], prev[v := u],
               pq_push ((dists ! u + 1) mod 2 ^ 32, v) pq))
         else relax u visited vs (dists, prev, pq))
      else relax u visited vs (dists, prev, pq))"

text \<open>
  The loop \<open>while (!pq.empty())\<close>. It ends because every round either marks a node that
  was not visited or only shrinks the queue.
\<close>

lemma pq_pop_shorter: "pq \<noteq> [] \<Longrightarrow> length (pq_pop pq) < length pq"
proof -
  assume ne: "pq \<noteq> []"
  then have "Min (set pq) \<in> set pq" by (intro Min_in) auto
  moreover have "0 < length pq" using ne by simp
  ultimately show ?thesis
    by (simp add: pq_pop_def length_remove1)
qed

function dijkstra_loop :: "IslTopology \<Rightarrow> nat list \<Rightarrow> nat list \<Rightarrow> bool list \<Rightarrow> PQNode list
    \<Rightarrow> error + (nat list \<times> nat list)" where
  "dijkstra_loop t dists prev visited pq =
     (if pq = [] then Inr (dists, prev)
      else if length visited \<le> snd (pq_top pq) then Inl OutOfBounds
      else if visited ! snd (pq_top pq) then dijkstra_loop t dists prev visited (pq_pop pq)
      else (case map_of (neighbors t) (snd (pq_top pq)) of
              None \<Rightarrow> dijkstra_loop t dists prev (visited[snd (pq_top pq) := True]) (pq_pop pq)
            | Some ns \<Rightarrow>
                (case relax (snd (pq_top pq)) (visited[snd (pq_top pq) := True]) ns
                        (dists, prev, pq_pop pq) of
                   Inl e \<Rightarrow> Inl e
                 | Inr (dists', prev', pq') \<Rightarrow>
                     dijkstra_loop t dists' prev' (visited[snd (pq_top pq) := True]) pq')))"
  by pat_completeness auto

termination
  by (relation "measures [\<lambda>(t, dists, prev, visited, pq). unvisited_count visited,
                          \<lambda>(t, dists, prev, visited, pq). length pq]")
     (auto simp: unvisited_count_mark pq_pop_shorter)

declare dijkstra_loop.simps [simp del]

text \<open>
  One round of the outer loop up to the end of the \<open>while\<close>: the three vectors are
  created, \<open>dist[src] = 0\<close> is stored and \<open>(0, src)\<close> is pushed.
\<close>

definition dijkstra_from :: "IslTopology \<Rightarrow> nat \<Rightarrow> error + (nat list \<times> nat list)" where
  "dijkstra_from t src =
     (if numSatellites t \<le> src then Inl OutOfBounds
      else dijkstra_loop t ((replicate (numSatellites t) INF_dist)[src := 0])
             (replicate (numSatellites t) UINT32_MAX)
             (replicate (numSatellites t) False)
             (pq_push (0, src) []))"

subsection \<open>Next-hop extraction\<close>

text \<open>
  \<open>while (prev[current] != src && prev[current] != UINT32_MAX) current = prev[current];\<close>
  Nothing in the loop itself bounds the number of rounds, so not returning is the value
  \<open>None\<close>.
\<close>

partial_function (option) trace_back :: "nat list \<Rightarrow> nat \<Rightarrow> nat \<Rightarrow> (error + nat) option" where
  "trace_back prev src current =
     (if length prev \<le> current then Some (Inl OutOfBounds)
      else if prev ! current \<noteq> src \<and> prev ! current \<noteq> UINT32_MAX
        then trace_back prev src (prev ! current)
      else Some (Inr current))"

text \<open>The loop \<open>for (uint32_t dst = 0; dst < topology.numSatellites; ++dst)\<close>.\<close>

fun extract_next_hops :: "nat \<Rightarrow> nat list \<Rightarrow> nat list \<Rightarrow> nat list \<Rightarrow> RoutingTables
    \<Rightarrow> (error + RoutingTables) option" where
  "extract_next_hops src dists prev [] routes = Some (Inr routes)"
| "extract_next_hops src dists prev (dst # dsts) routes =
     (if src = dst then extract_next_hops src dists prev dsts routes
      else if length dists \<le> dst then Some (Inl OutOfBounds)
      else if dists ! dst = INF_dist then extract_next_hops src dists prev dsts routes
      else (case trace_back prev src dst of
              None \<Rightarrow> None
            | Some (Inl e) \<Rightarrow> Some (Inl e)
            | Some (Inr current) \<Rightarrow>
                extract_next_hops src dists prev dsts (SetNextHop routes src dst current)))"

text \<open>The loop \<open>for (uint32_t src = 0; src < topology.numSatellites; ++src)\<close>.\<close>

fun routes_from_sources :: "IslTopology \<Rightarrow> nat list \<Rightarrow> RoutingTables
    \<Rightarrow> (error + RoutingTables) option" where
  "routes_from_sources t [] routes = Some (Inr routes)"
| "routes_from_sources t (src # srcs) routes =
     (case dijkstra_from t src of
        Inl e \<Rightarrow> Some (Inl e)
      | Inr (dists, prev) \<Rightarrow>
          (case extract_next_hops src dists prev [0..<numSatellites t] routes of
             None \<Rightarrow> None
           | Some (Inl e) \<Rightarrow> Some (Inl e)
           | Some (Inr routes') \<Rightarrow> routes_from_sources t srcs routes'))"

definition ComputeStaticRoutes :: "IslTopology \<Rightarrow> (error + RoutingTables) option" where
  "ComputeStaticRoutes topology =
     routes_from_sources topology [0..<numSatellites topology] empty_routes"

subsection \<open>Hop count\<close>

text \<open>
  The loop \<open>while (current != dst)\<close> of \<open>GetHopCount\<close>; \<open>hops\<close> never exceeds 101, so the
  increment cannot wrap.
\<close>

function hop_loop :: "RoutingTables \<Rightarrow> nat \<Rightarrow> nat \<Rightarrow> nat set \<Rightarrow> nat \<Rightarrow> nat" where
  "hop_loop routes dst current visited hops =
     (if current \<noteq> dst then
        (if current \<in> visited then UINT32_MAX
         else if GetNextHop routes current dst = UINT32_MAX then UINT32_MAX
         else if hops + 1 > 100 then UINT32_MAX
         else hop_loop routes dst (GetNextHop routes current dst) (insert current visited)
                (hops + 1))
      else hops)"
  by pat_completeness auto
termination
  by (relation "measure (\<lambda>(routes, dst, current, visited, hops). 101 - hops)") auto

declare hop_loop.simps [simp del]

definition GetHopCount :: "RoutingTables \<Rightarrow> nat \<Rightarrow> nat \<Rightarrow> nat" where
  "GetHopCount routes src dst = (if src = dst then 0 else hop_loop routes dst src {} 0)"

section \<open>Network creator (isl-network-creator)\<close>

text \<open>
  The simulator objects, as far as the three functions read and write them. A node is the
  list of the addresses of its Ipv4 interfaces, interface 0 being the loopback; satellite
  \<open>i\<close> of the container is the node with \<open>GetId() = i\<close>. A net device is given by the id
  of its node. An entry of an \<open>Ipv4InterfaceContainer\<close> is the node of the Ipv4 object, the
  interface index and the address \<open>GetAddress\<close> returns for it. Distances and
  propagation delays are floating-point link attributes and are left out.
\<close>

type_synonym Ipv4Address = "nat \<times> nat \<times> nat \<times> nat"

record SatNode =
  ipv4_addrs :: "Ipv4Address list"

type_synonym NodeContainer = "SatNode list"

type_synonym NetDeviceContainer = "nat list"

record Ipv4Interface =
  if_node :: nat
  if_index :: nat
  if_address :: Ipv4Address

subsection \<open>CreateIslMesh\<close>




subsection \<open>AssignIslAddresses\<close>

text \<open>
  The subnet string \<open>"10." << (i / 64) << "." << ((i % 64) * 4) << ".0"\<close>, as the four
  numbers it prints.
\<close>

definition isl_subnet :: "nat \<Rightarrow> Ipv4Address" where
  "isl_subnet i = (10, i div 64, (i mod 64) * 4, 0)"

text \<open>Four numbers are an address when each of them fits an octet.\<close>

definition valid_address :: "Ipv4Address \<Rightarrow> bool" where
  "valid_address x = (case x of (a, b, c, d) \<Rightarrow> a \<le> 255 \<and> b \<le> 255 \<and> c \<le> 255 \<and> d \<le> 255)"

text \<open>
  The mask \<open>255.255.255.252\<close> makes the subnet the block of four addresses that differ
  from the base in the last number by 0 to 3. A base that is not an address has no
  block.
\<close>

definition host_address :: "Ipv4Address \<Rightarrow> nat \<Rightarrow> Ipv4Address" where
  "host_address subnet h = (case subnet of (a, b, c, d) \<Rightarrow> (a, b, c, d + h))"

definition subnet_block :: "Ipv4Address \<Rightarrow> Ipv4Address set" where
  "subnet_block subnet =
     (if valid_address subnet then host_address subnet ` {0, 1, 2, 3} else {})"

text \<open>
  Modelled from the spec: \<open>Ipv4AddressHelper::Assign\<close> of the simulator is not part of the
  sources. For each device it adds an Ipv4 interface to the node of the device, whose
  index is the number of interfaces the node has so far (the position of the link among
  the links of the node in creation order, after the loopback), and gives it the next
  host address of the subnet; the two devices of a link get hosts 1 and 2.
\<close>

definition assign_device :: "NodeContainer \<Rightarrow> Ipv4Address \<Rightarrow> nat \<Rightarrow> nat
    \<Rightarrow> error + (NodeContainer \<times> Ipv4Interface)" where
  "assign_device sats subnet h dev =
     (if length sats \<le> dev then Inl OutOfBounds
      else Inr (sats[dev := (sats ! dev)\<lparr>ipv4_addrs :=
                   ipv4_addrs (sats ! dev) @ [host_address subnet h]\<rparr>],
                \<lparr>if_node = dev, if_index = length (ipv4_addrs (sats ! dev)),
                 if_address = host_address subnet h\<rparr>))"

text \<open>
  The loop \<open>for (uint32_t i = 0; i < linkCount; ++i)\<close>. Each round first hands the subnet
  string to \<open>SetBase\<close>, then reads the two devices of the link.
\<close>

fun assign_links :: "NetDeviceContainer \<Rightarrow> nat list \<Rightarrow> NodeContainer \<times> Ipv4Interface list
    \<Rightarrow> error + (NodeContainer \<times> Ipv4Interface list)" where
  "assign_links islDevices [] s = Inr s"
| "assign_links islDevices (i # rest) (sats, interfaces) =
     (if \<not> valid_address (isl_subnet i) then Inl InvalidAddress
      else if length islDevices \<le> i * 2 + 1 then Inl OutOfBounds
      else (case assign_device sats (isl_subnet i) 1 (islDevices ! (i * 2)) of
              Inl e \<Rightarrow> Inl e
            | Inr (sats1, ifA) \<Rightarrow>
                (case assign_device sats1 (isl_subnet i) 2 (islDevices ! (i * 2 + 1)) of
                   Inl e \<Rightarrow> Inl e
                 | Inr (sats2, ifB) \<Rightarrow>
                     assign_links islDevices rest (sats2, interfaces @ [ifA, ifB]))))"

definition AssignIslAddresses :: "NodeContainer \<Rightarrow> NetDeviceContainer
    \<Rightarrow> error + (NodeContainer \<times> Ipv4Interface list)" where
  "AssignIslAddresses satellites islDevices =
     assign_links islDevices [0..<length islDevices div 2] (satellites, [])"

subsection \<open>InstallStaticRoutes\<close>










section \<open>The generated topology\<close>

text \<open>The neighbour map of the supported 24-satellite, 4-neighbour constellation.\<close>

lemma upt_0_3: "[0..<3] = [0, 1, 2::nat]"
  by code_simp

lemma upt_0_8: "[0..<8] = [0, 1, 2, 3, 4, 5, 6, 7::nat]"
  by code_simp

definition mesh24 :: "(nat \<times> nat list) list" where
  "mesh24 =
      [(0, [1, 7, 8, 16]), (1, [2, 0, 9, 17]), (2, [3, 1, 10, 18]),
       (3, [4, 2, 11, 19]), (4, [5, 3, 12, 20]), (5, [6, 4, 13, 21]),
       (6, [7, 5, 14, 22]), (7, [0, 6, 15, 23]), (8, [9, 15, 16, 0]),
       (9, [10, 8, 17, 1]), (10, [11, 9, 18, 2]), (11, [12, 10, 19, 3]),
       (12, [13, 11, 20, 4]), (13, [14, 12, 21, 5]), (14, [15, 13, 22, 6]),
       (15, [8, 14, 23, 7]), (16, [17, 23, 0, 8]), (17, [18, 16, 1, 9]),
       (18, [19, 17, 2, 10]), (19, [20, 18, 3, 11]), (20, [21, 19, 4, 12]),
       (21, [22, 20, 5, 13]), (22, [23, 21, 6, 14]),
       (23, [16, 22, 7, 15])]"

lemma generate_neighbors_mesh24: "generate_neighbors [] = mesh24"
  by (simp add: generate_neighbors_def sat_neighbors_def NUM_PLANES_def SATS_PER_PLANE_def
      upt_0_3 upt_0_8 Let_def mesh24_def)

lemma unique_links_mesh24: "length (unique_links mesh24) = 48"
  by (simp add: mesh24_def unique_links_def normalize_link_def List.insert_def)

lemma topology24:
  "GenerateWalkerDeltaTopology 24 4 = \<lparr>numSatellites = 24, numLinks = 48, neighbors = mesh24\<rparr>"
  by (simp add: GenerateWalkerDeltaTopology_def Let_def generate_neighbors_mesh24
      unique_links_mesh24)

definition adj_pairs :: "(nat \<times> nat list) list \<Rightarrow> (nat \<times> nat) list" where
  "adj_pairs al = concat (map (\<lambda>(u, ns). map (Pair u) ns) al)"

lemma adj_pairs_key: "(u, v) \<in> set (adj_pairs al) \<Longrightarrow> u \<in> fst ` set al"
  by (induction al) (auto simp: adj_pairs_def)

lemma nbrs_of_adj_pairs:
  assumes d: "distinct (map fst (neighbors t))"
  shows "(v \<in> set (nbrs_of t u)) = ((u, v) \<in> set (adj_pairs (neighbors t)))"
proof -
  have gen: "distinct (map fst al) \<Longrightarrow>
      (v \<in> set (case map_of al u of None \<Rightarrow> [] | Some ns \<Rightarrow> ns)) = ((u, v) \<in> set (adj_pairs al))"
    for al
  proof (induction al)
    case Nil
    then show ?case by (simp add: adj_pairs_def)
  next
    case (Cons p al)
    obtain k ns where p: "p = (k, ns)" by (cases p)
    have step: "adj_pairs ((k', ns') # al) = map (Pair k') ns' @ adj_pairs al" for k' ns'
      by (simp add: adj_pairs_def)
    from Cons.prems have dist: "distinct (map fst al)" and fresh: "k \<notin> fst ` set al"
      by (simp_all add: p)
    show ?case
      unfolding p
    proof (cases "k = u")
      case True
      then have "(u, v) \<notin> set (adj_pairs al)"
        using fresh adj_pairs_key [of u v al] by auto
      then show "(v \<in> set (case map_of ((k, ns) # al) u of None \<Rightarrow> [] | Some ns \<Rightarrow> ns)) =
          ((u, v) \<in> set (adj_pairs ((k, ns) # al)))"
        using True by (auto simp: step)
    next
      case False
      then show "(v \<in> set (case map_of ((k, ns) # al) u of None \<Rightarrow> [] | Some ns \<Rightarrow> ns)) =
          ((u, v) \<in> set (adj_pairs ((k, ns) # al)))"
        using Cons.IH [OF dist] by (auto simp: step)
    qed
  qed
  from gen [OF d] show ?thesis unfolding nbrs_of_def .
qed

lemma mesh24_pairs_symmetric: "list_all (\<lambda>(u, v). (v, u) \<in> set (adj_pairs mesh24)) (adj_pairs mesh24)"
  by (simp add: adj_pairs_def mesh24_def)

text \<open>
  Claim C2. Every topology returned by \<open>GenerateWalkerDeltaTopology\<close> is symmetric: \<open>B\<close> is
  in the neighbour vector of \<open>A\<close> exactly when \<open>A\<close> is in the neighbour vector of \<open>B\<close>,
  for all arguments of the generator and all node ids.
\<close>

theorem C2_symmetric:
  "(B \<in> set (nbrs_of (GenerateWalkerDeltaTopology numSats neighborsPerSat) A)) =
   (A \<in> set (nbrs_of (GenerateWalkerDeltaTopology numSats neighborsPerSat) B))"
proof (cases "(numSats, neighborsPerSat) = (24, 4)")
  case True
  have d: "distinct (map fst mesh24)" by (simp add: mesh24_def)
  have sym: "(u, v) \<in> set (adj_pairs mesh24) \<Longrightarrow> (v, u) \<in> set (adj_pairs mesh24)" for u v
    using mesh24_pairs_symmetric by (auto simp: list_all_iff)
  from True have t: "GenerateWalkerDeltaTopology numSats neighborsPerSat =
      \<lparr>numSatellites = 24, numLinks = 48, neighbors = mesh24\<rparr>"
    using topology24 by simp
  show ?thesis
    unfolding t using d sym by (auto simp: nbrs_of_adj_pairs)
next
  case False
  then have "neighbors (GenerateWalkerDeltaTopology numSats neighborsPerSat) = []"
    by (auto simp: GenerateWalkerDeltaTopology_def Let_def)
  then show ?thesis by (simp add: nbrs_of_def)
qed

text \<open>
  Claim C5. For every combination of arguments other than \<open>(24, 4)\<close> the generator returns,
  without error, the topology with \<open>numLinks = 0\<close> and an empty neighbour map (and the
  requested satellite count); \<open>(10, 4)\<close> is such a combination.
\<close>

theorem C5_unsupported_empty:
  "(numSats, neighborsPerSat) \<noteq> (24, 4) \<Longrightarrow>
     numLinks (GenerateWalkerDeltaTopology numSats neighborsPerSat) = 0 \<and>
     neighbors (GenerateWalkerDeltaTopology numSats neighborsPerSat) = [] \<and>
     numSatellites (GenerateWalkerDeltaTopology numSats neighborsPerSat) = numSats"
  by (auto simp: GenerateWalkerDeltaTopology_def Let_def)

theorem C5_unsupported_empty_witness:
  "numLinks (GenerateWalkerDeltaTopology 10 4) = 0 \<and>
   neighbors (GenerateWalkerDeltaTopology 10 4) = [] \<and>
   numSatellites (GenerateWalkerDeltaTopology 10 4) = 10"
proof -
  have h: "(10::nat, 4::nat) \<noteq> (24, 4)" by simp
  from C5_unsupported_empty [OF h] show ?thesis .
qed

section \<open>Hop counts\<close>

text \<open>
  Claim C10. For every routing table and every node \<open>x\<close> the hop count from \<open>x\<close> to
  itself is 0, while the next hop from \<open>x\<close> to itself is the no-route sentinel in a
  table without an entry for \<open>(x, x)\<close>, such as the empty one.
\<close>

theorem C10_self_hop_count:
  "GetHopCount routes x x = 0 \<and>
   (m_nextHop routes x = None \<or> (\<exists>inner. m_nextHop routes x = Some inner \<and> inner x = None)
      \<longrightarrow> GetNextHop routes x x = UINT32_MAX) \<and>
   GetNextHop empty_routes x x = UINT32_MAX"
  by (auto simp: GetHopCount_def GetNextHop_def empty_routes_def)

theorem C10_self_hop_count_witness:
  "GetHopCount (SetNextHop empty_routes 0 1 1) 0 0 = 0 \<and>
   GetNextHop (SetNextHop empty_routes 0 1 1) 0 0 = UINT32_MAX"
  using C10_self_hop_count [of "SetNextHop empty_routes 0 1 1" 0]
  by (simp add: SetNextHop_def empty_routes_def)

section \<open>Address blocks\<close>

text \<open>The 32-bit number a dotted quad stands for.\<close>

definition address_value :: "Ipv4Address \<Rightarrow> nat" where
  "address_value x = (case x of (a, b, c, d) \<Rightarrow> ((a * 256 + b) * 256 + c) * 256 + d)"

subsection \<open>The subnet of a link\<close>

text \<open>The string of link \<open>i\<close> is an address exactly for the first \<open>64 * 256\<close> links.\<close>

lemma valid_isl_subnet: "valid_address (isl_subnet i) = (i < 16384)"
proof -
  define q where "q = i div 64"
  have "i mod 64 < 64" by simp
  then have a: "i mod 64 * 4 \<le> 255" by linarith
  have "(i div 64 < 256) = (i < 256 * 64)" by (rule div_less_iff_less_mult) simp
  then have "(q < 256) = (i < 16384)" by (simp add: q_def)
  moreover have "(q \<le> 255) = (q < 256)" by auto
  ultimately have b: "(q \<le> 255) = (i < 16384)" by simp
  show ?thesis using a b by (simp add: valid_address_def isl_subnet_def q_def)
qed

lemma subnet_block_isl_subnet:
  "i < 16384 \<Longrightarrow>
     subnet_block (isl_subnet i) = {(10, i div 64, (i mod 64) * 4, h) | h. h < 4}"
proof -
  assume "i < 16384"
  then have "subnet_block (isl_subnet i) = host_address (isl_subnet i) ` {0, 1, 2, 3}"
    by (simp add: subnet_block_def valid_isl_subnet)
  also have "\<dots> = (\<lambda>h. (10, i div 64, (i mod 64) * 4, h)) ` {0, 1, 2, 3}"
    by (simp add: isl_subnet_def host_address_def)
  also have "{0, 1, 2, 3} = {h :: nat. h < 4}" by auto
  finally show ?thesis by auto
qed

lemma subnet_block_disjoint:
  "i \<noteq> j \<Longrightarrow> subnet_block (isl_subnet i) \<inter> subnet_block (isl_subnet j) = {}"
proof -
  assume ne: "i \<noteq> j"
  have "i div 64 \<noteq> j div 64 \<or> i mod 64 \<noteq> j mod 64"
    using ne by (metis div_mult_mod_eq)
  then show ?thesis
    by (auto simp: subnet_block_def isl_subnet_def host_address_def)
qed

lemma subnet_block_valid:
  "x \<in> subnet_block (isl_subnet i) \<Longrightarrow> valid_address x"
proof -
  assume x: "x \<in> subnet_block (isl_subnet i)"
  then have v: "valid_address (isl_subnet i)"
    by (auto simp: subnet_block_def split: if_splits)
  then have "i div 64 \<le> 255" and "i mod 64 * 4 \<le> 255"
    by (simp_all add: valid_address_def isl_subnet_def)
  then show ?thesis
    using x v by (auto simp: subnet_block_def isl_subnet_def host_address_def valid_address_def)
qed

lemma host_in_block:
  "i < 16384 \<Longrightarrow> h < 4 \<Longrightarrow> host_address (isl_subnet i) h \<in> subnet_block (isl_subnet i)"
  by (simp add: subnet_block_isl_subnet) (simp add: isl_subnet_def host_address_def)

lemma host_address_isl_subnet:
  "host_address (isl_subnet i) h = (10, i div 64, (i mod 64) * 4, h)"
  by (simp add: isl_subnet_def host_address_def)

lemma address_value_isl_subnet:
  "address_value (host_address (isl_subnet i) h) = 167772160 + 1024 * i + h"
proof -
  define q where "q = i div 64"
  define r where "r = i mod 64"
  have i: "i = q * 64 + r" by (simp add: q_def r_def)
  have "isl_subnet i = (10, q, r * 4, 0)"
    by (simp add: isl_subnet_def q_def r_def)
  then have "address_value (host_address (isl_subnet i) h) = ((10 * 256 + q) * 256 + r * 4) * 256 + h"
    by (simp add: address_value_def host_address_def)
  also have "\<dots> = 167772160 + 1024 * (q * 64 + r) + h"
    by (simp add: algebra_simps)
  finally show ?thesis using i by simp
qed

lemma isl_subnet_roll:
  assumes m: "i mod 64 = 63"
  shows "isl_subnet (i + 1) = (10, i div 64 + 1, 0, 0)"
proof -
  have e: "i + 1 = (i div 64 + 1) * 64"
    using div_mult_mod_eq [of i 64] m by simp
  have "(i + 1) mod 64 = 0" unfolding e by simp
  moreover have "(i + 1) div 64 = i div 64 + 1" unfolding e by simp
  ultimately show ?thesis by (simp add: isl_subnet_def)
qed

subsection \<open>The interfaces that the address assignment creates\<close>

lemma assign_device_spec:
  assumes "dev < length sats"
  shows "\<exists>sats' ifc. assign_device sats subnet h dev = Inr (sats', ifc) \<and>
     length sats' = length sats \<and> if_node ifc = dev \<and> if_address ifc = host_address subnet h \<and>
     (\<forall>d < length sats. length (ipv4_addrs (sats ! d)) \<le> length (ipv4_addrs (sats' ! d))) \<and>
     length (ipv4_addrs (sats ! dev)) < length (ipv4_addrs (sats' ! dev))"
  using assms by (simp add: assign_device_def nth_list_update)

text \<open>
  The loop over the links, as long as every subnet string is an address: one interface
  per device, on the node of the device, with host 1 and host 2 of the subnet of the
  link; no node loses an interface and the node of every device gains one.
\<close>

lemma assign_links_spec:
  assumes "\<forall>i \<in> set is. i * 2 + 1 < length devs" and "\<forall>d \<in> set devs. d < length sats"
    and "\<forall>i \<in> set is. valid_address (isl_subnet i)"
  shows "\<exists>sats' ifs'. assign_links devs is (sats, ifs) = Inr (sats', ifs') \<and>
     length sats' = length sats \<and>
     map if_node ifs' = map if_node ifs @ concat (map (\<lambda>i. [devs ! (i * 2), devs ! (i * 2 + 1)]) is) \<and>
     map if_address ifs' = map if_address ifs @
        concat (map (\<lambda>i. [host_address (isl_subnet i) 1, host_address (isl_subnet i) 2]) is) \<and>
     (\<forall>d < length sats. length (ipv4_addrs (sats ! d)) \<le> length (ipv4_addrs (sats' ! d))) \<and>
     (\<forall>i \<in> set is.
        length (ipv4_addrs (sats ! (devs ! (i * 2)))) < length (ipv4_addrs (sats' ! (devs ! (i * 2)))) \<and>
        length (ipv4_addrs (sats ! (devs ! (i * 2 + 1))))
          < length (ipv4_addrs (sats' ! (devs ! (i * 2 + 1)))))"
  using assms
proof (induction "is" arbitrary: sats ifs)
  case Nil
  then show ?case by simp
next
  case (Cons i rest)
  let ?a = "devs ! (i * 2)" and ?b = "devs ! (i * 2 + 1)"
  from Cons.prems(1) have i: "i * 2 + 1 < length devs" and i0: "i * 2 < length devs"
    and rest: "\<forall>i \<in> set rest. i * 2 + 1 < length devs"
    by auto
  from Cons.prems(3) have v: "valid_address (isl_subnet i)"
    and vrest: "\<forall>i \<in> set rest. valid_address (isl_subnet i)"
    by auto
  have a: "?a < length sats" and b: "?b < length sats"
    using Cons.prems(2) i i0 nth_mem by blast+
  from assign_device_spec [OF a, of "isl_subnet i" 1] obtain sats1 ifA where
    A: "assign_device sats (isl_subnet i) 1 ?a = Inr (sats1, ifA)"
    and l1: "length sats1 = length sats" and nA: "if_node ifA = ?a"
    and aA: "if_address ifA = host_address (isl_subnet i) 1"
    and m1: "\<forall>d < length sats. length (ipv4_addrs (sats ! d)) \<le> length (ipv4_addrs (sats1 ! d))"
    and s1: "length (ipv4_addrs (sats ! ?a)) < length (ipv4_addrs (sats1 ! ?a))"
    by blast
  have b1: "?b < length sats1" using b l1 by simp
  from assign_device_spec [OF b1, of "isl_subnet i" 2] obtain sats2 ifB where
    B: "assign_device sats1 (isl_subnet i) 2 ?b = Inr (sats2, ifB)"
    and l2: "length sats2 = length sats1" and nB: "if_node ifB = ?b"
    and aB: "if_address ifB = host_address (isl_subnet i) 2"
    and m2: "\<forall>d < length sats1. length (ipv4_addrs (sats1 ! d)) \<le> length (ipv4_addrs (sats2 ! d))"
    and s2: "length (ipv4_addrs (sats1 ! ?b)) < length (ipv4_addrs (sats2 ! ?b))"
    by blast
  have devs2: "\<forall>d \<in> set devs. d < length sats2" using Cons.prems(2) l1 l2 by simp
  from Cons.IH [OF rest devs2 vrest, of "ifs @ [ifA, ifB]"] obtain sats' ifs' where
    R: "assign_links devs rest (sats2, ifs @ [ifA, ifB]) = Inr (sats', ifs')"
    and l3: "length sats' = length sats2"
    and n3: "map if_node ifs' = map if_node (ifs @ [ifA, ifB]) @
        concat (map (\<lambda>i. [devs ! (i * 2), devs ! (i * 2 + 1)]) rest)"
    and a3: "map if_address ifs' = map if_address (ifs @ [ifA, ifB]) @
        concat (map (\<lambda>i. [host_address (isl_subnet i) 1, host_address (isl_subnet i) 2]) rest)"
    and m3: "\<forall>d < length sats2. length (ipv4_addrs (sats2 ! d)) \<le> length (ipv4_addrs (sats' ! d))"
    and s3: "\<forall>i \<in> set rest.
        length (ipv4_addrs (sats2 ! (devs ! (i * 2)))) < length (ipv4_addrs (sats' ! (devs ! (i * 2)))) \<and>
        length (ipv4_addrs (sats2 ! (devs ! (i * 2 + 1))))
          < length (ipv4_addrs (sats' ! (devs ! (i * 2 + 1))))"
    by blast
  have mono02: "length (ipv4_addrs (sats ! d)) \<le> length (ipv4_addrs (sats2 ! d))"
    if "d < length sats" for d
    using m1 [rule_format, OF that] m2 [rule_format, of d] l1 that by simp
  have mono2: "length (ipv4_addrs (sats2 ! d)) \<le> length (ipv4_addrs (sats' ! d))"
    if "d < length sats" for d
    using m3 l1 l2 that by simp
  have mono: "length (ipv4_addrs (sats ! d)) \<le> length (ipv4_addrs (sats' ! d))"
    if "d < length sats" for d
    using mono02 [OF that] mono2 [OF that] by simp
  have res: "assign_links devs (i # rest) (sats, ifs) = Inr (sats', ifs')"
    using i v A B R by simp
  have len: "length sats' = length sats" using l1 l2 l3 by simp
  have nodes: "map if_node ifs' = map if_node ifs @
      concat (map (\<lambda>i. [devs ! (i * 2), devs ! (i * 2 + 1)]) (i # rest))"
    using n3 nA nB by simp
  have addrs: "map if_address ifs' = map if_address ifs @
      concat (map (\<lambda>i. [host_address (isl_subnet i) 1, host_address (isl_subnet i) 2]) (i # rest))"
    using a3 aA aB by simp
  have strict: "length (ipv4_addrs (sats ! (devs ! (j * 2)))) < length (ipv4_addrs (sats' ! (devs ! (j * 2)))) \<and>
        length (ipv4_addrs (sats ! (devs ! (j * 2 + 1))))
          < length (ipv4_addrs (sats' ! (devs ! (j * 2 + 1))))"
    if j: "j \<in> set (i # rest)" for j
  proof (cases "j = i")
    case True
    have "length (ipv4_addrs (sats ! ?a)) < length (ipv4_addrs (sats' ! ?a))"
      using s1 m2 [rule_format, of ?a] mono2 [OF a] a l1 by simp
    moreover have "length (ipv4_addrs (sats ! ?b)) < length (ipv4_addrs (sats' ! ?b))"
      using m1 [rule_format, OF b] s2 mono2 [OF b] by simp
    ultimately show ?thesis using True by simp
  next
    case False
    with j have jr: "j \<in> set rest" by simp
    from Cons.prems(1) j have j1: "j * 2 + 1 < length devs" and j0: "j * 2 < length devs" by auto
    have ja: "devs ! (j * 2) < length sats" and jb: "devs ! (j * 2 + 1) < length sats"
      using Cons.prems(2) j0 j1 nth_mem by blast+
    from s3 jr have
      "length (ipv4_addrs (sats2 ! (devs ! (j * 2)))) < length (ipv4_addrs (sats' ! (devs ! (j * 2))))"
      "length (ipv4_addrs (sats2 ! (devs ! (j * 2 + 1))))
          < length (ipv4_addrs (sats' ! (devs ! (j * 2 + 1))))"
      by blast+
    with mono02 [OF ja] mono02 [OF jb] show ?thesis by simp
  qed
  from res len nodes addrs mono strict show ?case by blast
qed

lemma assign_links_append:
  "assign_links devs (xs @ ys) (sats, ifs) =
     (case assign_links devs xs (sats, ifs) of
        Inl e \<Rightarrow> Inl e
      | Inr s' \<Rightarrow> assign_links devs ys s')"
proof (induction xs arbitrary: sats ifs)
  case Nil
  then show ?case by simp
next
  case (Cons x xs)
  then show ?case by (simp split: sum.splits prod.splits)
qed

lemma pairs_length: "length (concat (map (\<lambda>i. [g i, h i]) [0..<n])) = 2 * n"
  by (induction n) simp_all

lemma pairs_nth:
  "i < n \<Longrightarrow> concat (map (\<lambda>i. [g i, h i]) [0..<n]) ! (2 * i) = g i \<and>
     concat (map (\<lambda>i. [g i, h i]) [0..<n]) ! (2 * i + 1) = h i"
proof (induction n)
  case 0
  then show ?case by simp
next
  case (Suc n)
  let ?L = "concat (map (\<lambda>i. [g i, h i]) [0..<n])"
  have L: "concat (map (\<lambda>i. [g i, h i]) [0..<Suc n]) = ?L @ [g n, h n]" by simp
  have len: "length ?L = 2 * n" by (rule pairs_length)
  show ?case
  proof (cases "i < n")
    case True
    then have "2 * i < length ?L" and "2 * i + 1 < length ?L" using len by simp_all
    then show ?thesis unfolding L using Suc.IH [OF True] by (simp add: nth_append)
  next
    case False
    with Suc.prems have "i = n" by simp
    then show ?thesis unfolding L using len by (simp add: nth_append)
  qed
qed

lemma pairs_concat:
  "2 * n \<le> length xs \<Longrightarrow>
     concat (map (\<lambda>i. [xs ! (i * 2), xs ! (i * 2 + 1)]) [0..<n]) = take (2 * n) xs"
proof (induction n)
  case 0
  then show ?case by simp
next
  case (Suc n)
  then have a: "2 * n < length xs" and b: "Suc (2 * n) < length xs" by simp_all
  have "take (2 * Suc n) xs = take (Suc (Suc (2 * n))) xs" by simp
  also have "\<dots> = take (2 * n) xs @ [xs ! (2 * n), xs ! Suc (2 * n)]"
    using a b by (simp add: take_Suc_conv_app_nth)
  finally show ?case using Suc by (simp add: mult.commute)
qed

text \<open>The values of the addresses of the first \<open>n\<close> links increase along the container.\<close>

lemma link_values_sorted:
  "sorted_wrt (<) (concat (map (\<lambda>i. [167772160 + 1024 * i + 1, 167772160 + 1024 * i + 2]) [0..<n])) \<and>
   (\<forall>x \<in> set (concat (map (\<lambda>i. [167772160 + 1024 * i + 1, 167772160 + 1024 * i + 2]) [0..<n])).
      x < 167772160 + 1024 * n)"
proof (induction n)
  case 0
  then show ?case by simp
next
  case (Suc n)
  let ?L = "concat (map (\<lambda>i. [167772160 + 1024 * i + 1, 167772160 + 1024 * i + 2]) [0..<n])"
  have L: "concat (map (\<lambda>i. [167772160 + 1024 * i + 1, 167772160 + 1024 * i + 2]) [0..<Suc n]) =
      ?L @ [167772160 + 1024 * n + 1, 167772160 + 1024 * n + 2]"
    by simp
  from Suc.IH have s: "sorted_wrt (<) ?L" and b: "\<forall>x \<in> set ?L. x < 167772160 + 1024 * n"
    by blast+
  have "sorted_wrt (<) (?L @ [167772160 + 1024 * n + 1, 167772160 + 1024 * n + 2])"
    using s b by (auto simp: sorted_wrt_append)
  moreover have "\<forall>x \<in> set (?L @ [167772160 + 1024 * n + 1, 167772160 + 1024 * n + 2]).
      x < 167772160 + 1024 * Suc n"
    using b by auto
  ultimately show ?case unfolding L by blast
qed

text \<open>
  \<open>AssignIslAddresses\<close> on at most 16384 links: interface \<open>2 * i\<close> of the container is host
  1 and interface \<open>2 * i + 1\<close> host 2 of the subnet of link \<open>i\<close>, and the values of the
  addresses are pairwise distinct.
\<close>

lemma AssignIslAddresses_addresses:
  assumes range: "\<forall>d \<in> set devs. d < length sats" and lim: "length devs div 2 \<le> 16384"
  shows "\<exists>sats' ifs. AssignIslAddresses sats devs = Inr (sats', ifs) \<and>
     length sats' = length sats \<and>
     length ifs = 2 * (length devs div 2) \<and>
     map if_node ifs = take (2 * (length devs div 2)) devs \<and>
     (\<forall>i < length devs div 2.
        if_address (ifs ! (2 * i)) = host_address (isl_subnet i) 1 \<and>
        if_address (ifs ! (2 * i + 1)) = host_address (isl_subnet i) 2) \<and>
     distinct (map (address_value \<circ> if_address) ifs) \<and>
     (\<forall>d \<in> set (take (2 * (length devs div 2)) devs).
        length (ipv4_addrs (sats ! d)) < length (ipv4_addrs (sats' ! d)))"
proof -
  define n where "n = length devs div 2"
  have n2: "2 * n \<le> length devs" unfolding n_def by simp
  have idx: "\<forall>i \<in> set [0..<n]. i * 2 + 1 < length devs"
  proof
    fix i assume "i \<in> set [0..<n]"
    then have "i < n" by simp
    then show "i * 2 + 1 < length devs" using n2 by linarith
  qed
  have val: "\<forall>i \<in> set [0..<n]. valid_address (isl_subnet i)"
    using lim by (simp add: valid_isl_subnet n_def)
  let ?g = "\<lambda>i. host_address (isl_subnet i) 1" and ?h = "\<lambda>i. host_address (isl_subnet i) 2"
  have "\<exists>sats' ifs. assign_links devs [0..<n] (sats, []) = Inr (sats', ifs) \<and>
     length sats' = length sats \<and>
     map if_node ifs = concat (map (\<lambda>i. [devs ! (i * 2), devs ! (i * 2 + 1)]) [0..<n]) \<and>
     map if_address ifs = concat (map (\<lambda>i. [?g i, ?h i]) [0..<n]) \<and>
     (\<forall>d < length sats. length (ipv4_addrs (sats ! d)) \<le> length (ipv4_addrs (sats' ! d))) \<and>
     (\<forall>i \<in> set [0..<n].
        length (ipv4_addrs (sats ! (devs ! (i * 2)))) < length (ipv4_addrs (sats' ! (devs ! (i * 2)))) \<and>
        length (ipv4_addrs (sats ! (devs ! (i * 2 + 1))))
          < length (ipv4_addrs (sats' ! (devs ! (i * 2 + 1)))))"
    using assign_links_spec [OF idx range val, of "[]"] by simp
  then obtain sats' ifs where
    R: "assign_links devs [0..<n] (sats, []) = Inr (sats', ifs)"
    and len: "length sats' = length sats"
    and nodes: "map if_node ifs =
        concat (map (\<lambda>i. [devs ! (i * 2), devs ! (i * 2 + 1)]) [0..<n])"
    and addrs: "map if_address ifs = concat (map (\<lambda>i. [?g i, ?h i]) [0..<n])"
    and strict: "\<forall>i \<in> set [0..<n].
        length (ipv4_addrs (sats ! (devs ! (i * 2)))) < length (ipv4_addrs (sats' ! (devs ! (i * 2)))) \<and>
        length (ipv4_addrs (sats ! (devs ! (i * 2 + 1))))
          < length (ipv4_addrs (sats' ! (devs ! (i * 2 + 1))))"
    by blast
  have nodes': "map if_node ifs = take (2 * n) devs"
    unfolding nodes by (rule pairs_concat) (rule n2)
  have "length (map if_address ifs) = 2 * n" unfolding addrs by (rule pairs_length)
  then have li: "length ifs = 2 * n" by simp
  have at: "if_address (ifs ! (2 * i)) = ?g i \<and> if_address (ifs ! (2 * i + 1)) = ?h i"
    if "i < n" for i
  proof -
    have "2 * i < length ifs" and "2 * i + 1 < length ifs" using that li by simp_all
    then have "if_address (ifs ! (2 * i)) = map if_address ifs ! (2 * i)"
      and "if_address (ifs ! (2 * i + 1)) = map if_address ifs ! (2 * i + 1)"
      by simp_all
    then show ?thesis unfolding addrs using pairs_nth [OF that, of ?g ?h] by simp
  qed
  have "map (address_value \<circ> if_address) ifs = map address_value (map if_address ifs)"
    by simp
  also have "\<dots> = concat (map (\<lambda>i. [167772160 + 1024 * i + 1, 167772160 + 1024 * i + 2]) [0..<n])"
    unfolding addrs by (simp add: map_concat comp_def address_value_isl_subnet)
  finally have "sorted_wrt (<) (map (address_value \<circ> if_address) ifs)"
    using link_values_sorted [of n] by simp
  then have dist: "distinct (map (address_value \<circ> if_address) ifs)"
    by (simp add: strict_sorted_iff)
  have gain: "length (ipv4_addrs (sats ! d)) < length (ipv4_addrs (sats' ! d))"
    if "d \<in> set (take (2 * n) devs)" for d
  proof -
    from that obtain j where j: "j < 2 * n" "d = devs ! j"
      using n2 by (auto simp: in_set_conv_nth)
    have "j div 2 < n" using j(1) by linarith
    then have jn: "j div 2 \<in> set [0..<n]" by simp
    note S = strict [rule_format, OF jn]
    have "j = j div 2 * 2 \<or> j = j div 2 * 2 + 1" by linarith
    then show ?thesis
    proof
      assume e: "j = j div 2 * 2"
      from S have "length (ipv4_addrs (sats ! (devs ! (j div 2 * 2))))
          < length (ipv4_addrs (sats' ! (devs ! (j div 2 * 2))))" by blast
      then show ?thesis unfolding j(2) using e by simp
    next
      assume e: "j = j div 2 * 2 + 1"
      from S have "length (ipv4_addrs (sats ! (devs ! (j div 2 * 2 + 1))))
          < length (ipv4_addrs (sats' ! (devs ! (j div 2 * 2 + 1))))" by blast
      then show ?thesis unfolding j(2) using e by simp
    qed
  qed
  have "AssignIslAddresses sats devs = Inr (sats', ifs)"
    using R unfolding AssignIslAddresses_def n_def .
  with len li nodes' at dist gain show ?thesis unfolding n_def by blast
qed

text \<open>
  With more than 16384 links the loop reaches link 16384, whose subnet string
  \<open>10.256.0.0\<close> is not an address.
\<close>

lemma AssignIslAddresses_invalid:
  assumes range: "\<forall>d \<in> set devs. d < length sats" and big: "16384 < length devs div 2"
  shows "AssignIslAddresses sats devs = Inl InvalidAddress"
proof -
  define n where "n = length devs div 2"
  define m :: nat where "m = 16384"
  have mn: "m < n" using big by (simp add: m_def n_def)
  have n2: "2 * n \<le> length devs" unfolding n_def by simp
  have "[0..<m + (n - m)] = [0..<m] @ [m..<m + (n - m)]"
    by (rule upt_add_eq_append) simp
  moreover have "m + (n - m) = n" using mn by simp
  ultimately have "[0..<n] = [0..<m] @ [m..<n]" by simp
  also have "[m..<n] = m # [Suc m..<n]" using mn by (rule upt_conv_Cons)
  finally have split: "[0..<n] = [0..<m] @ m # [Suc m..<n]" .
  have idx: "\<forall>i \<in> set [0..<m]. i * 2 + 1 < length devs"
  proof
    fix i assume "i \<in> set [0..<m]"
    then have "i < n" using mn by simp
    then show "i * 2 + 1 < length devs" using n2 by linarith
  qed
  have val: "\<forall>i \<in> set [0..<m]. valid_address (isl_subnet i)"
    by (simp add: valid_isl_subnet m_def)
  from assign_links_spec [OF idx range val, of "[]"] obtain s' where
    first: "assign_links devs [0..<m] (sats, []) = Inr s'"
    by blast
  obtain sats' ifs' where s': "s' = (sats', ifs')" by (cases s')
  have bad: "\<not> valid_address (isl_subnet m)" by (simp add: valid_isl_subnet m_def)
  have "assign_links devs (m # [Suc m..<n]) (sats', ifs') = Inl InvalidAddress"
    using bad by simp
  then have "assign_links devs [0..<n] (sats, []) = Inl InvalidAddress"
    unfolding split assign_links_append first s' by simp
  then show ?thesis unfolding AssignIslAddresses_def n_def .
qed

subsection \<open>The claim\<close>

text \<open>
  Claim C6, as stated, fails from link index 16384 on: there the code prints the subnet
  string \<open>10.256.0.0\<close>, which is not an address, so a container of 16385 links on one node
  makes \<open>AssignIslAddresses\<close> hand the address helper a string that is not an address.
\<close>

theorem C6_counterexample:
  "isl_subnet 16384 = (10, 256, 0, 0) \<and> \<not> valid_address (isl_subnet 16384) \<and>
   AssignIslAddresses [\<lparr>ipv4_addrs = [(127, 0, 0, 1)]\<rparr>] (replicate 32770 0) = Inl InvalidAddress"
proof -
  have "AssignIslAddresses [\<lparr>ipv4_addrs = [(127, 0, 0, 1)]\<rparr>] (replicate 32770 0) = Inl InvalidAddress"
    by (rule AssignIslAddresses_invalid) simp_all
  then show ?thesis by (simp add: isl_subnet_def valid_address_def)
qed

text \<open>
  Claim C6, amended. For at most 16384 links, whose devices sit on satellites of the
  container, \<open>AssignIslAddresses\<close> returns two interfaces per link: the two devices of link
  \<open>i\<close> get the hosts 1 and 2 of the block \<open>10.(i / 64).((i mod 64) * 4).0\<close> with mask \<open>/30\<close>.
  The block of every link consists of four valid addresses, the blocks of two distinct
  links are disjoint, no two interfaces get the same address, and after a link with the
  last value of the third octet (\<open>i mod 64 = 63\<close>) the next link starts the next value of
  the second octet at 0.
\<close>

theorem C6_blocks:
  assumes "\<forall>d \<in> set islDevices. d < length satellites"
    and "length islDevices div 2 \<le> 16384"
  shows "\<exists>sats' interfaces.
     AssignIslAddresses satellites islDevices = Inr (sats', interfaces) \<and>
     length interfaces = 2 * (length islDevices div 2) \<and>
     (\<forall>i < length islDevices div 2.
        if_address (interfaces ! (2 * i)) = (10, i div 64, (i mod 64) * 4, 1) \<and>
        if_address (interfaces ! (2 * i + 1)) = (10, i div 64, (i mod 64) * 4, 2) \<and>
        subnet_block (isl_subnet i) = {(10, i div 64, (i mod 64) * 4, h) | h. h < 4} \<and>
        (\<forall>x \<in> subnet_block (isl_subnet i). valid_address x) \<and>
        (\<forall>j < length islDevices div 2. i \<noteq> j \<longrightarrow>
           subnet_block (isl_subnet i) \<inter> subnet_block (isl_subnet j) = {}) \<and>
        (i mod 64 = 63 \<and> i + 1 < length islDevices div 2 \<longrightarrow>
           isl_subnet (i + 1) = (10, i div 64 + 1, 0, 0) \<and> valid_address (isl_subnet (i + 1)))) \<and>
     distinct (map if_address interfaces) \<and>
     distinct (map (address_value \<circ> if_address) interfaces)"
proof -
  define n where "n = length islDevices div 2"
  from AssignIslAddresses_addresses [OF assms] obtain sats' interfaces where
    R: "AssignIslAddresses satellites islDevices = Inr (sats', interfaces)"
    and li: "length interfaces = 2 * n"
    and at: "\<forall>i < n. if_address (interfaces ! (2 * i)) = host_address (isl_subnet i) 1 \<and>
        if_address (interfaces ! (2 * i + 1)) = host_address (isl_subnet i) 2"
    and dv: "distinct (map (address_value \<circ> if_address) interfaces)"
    unfolding n_def by blast
  have "distinct (map address_value (map if_address interfaces))" using dv by simp
  then have da: "distinct (map if_address interfaces)"
    by (rule distinct_map [THEN iffD1, THEN conjunct1])
  have link: "if_address (interfaces ! (2 * i)) = (10, i div 64, (i mod 64) * 4, 1) \<and>
        if_address (interfaces ! (2 * i + 1)) = (10, i div 64, (i mod 64) * 4, 2) \<and>
        subnet_block (isl_subnet i) = {(10, i div 64, (i mod 64) * 4, h) | h. h < 4} \<and>
        (\<forall>x \<in> subnet_block (isl_subnet i). valid_address x) \<and>
        (\<forall>j < n. i \<noteq> j \<longrightarrow>
           subnet_block (isl_subnet i) \<inter> subnet_block (isl_subnet j) = {}) \<and>
        (i mod 64 = 63 \<and> i + 1 < n \<longrightarrow>
           isl_subnet (i + 1) = (10, i div 64 + 1, 0, 0) \<and> valid_address (isl_subnet (i + 1)))"
    if i: "i < n" for i
  proof -
    have i16: "i < 16384" using i assms(2) unfolding n_def by simp
    have a: "if_address (interfaces ! (2 * i)) = (10, i div 64, (i mod 64) * 4, 1)"
      and b: "if_address (interfaces ! (2 * i + 1)) = (10, i div 64, (i mod 64) * 4, 2)"
      using at i by (simp_all add: host_address_isl_subnet)
    have c: "subnet_block (isl_subnet i) = {(10, i div 64, (i mod 64) * 4, h) | h. h < 4}"
      using i16 by (rule subnet_block_isl_subnet)
    have d: "\<forall>x \<in> subnet_block (isl_subnet i). valid_address x"
      using subnet_block_valid by blast
    have e: "\<forall>j < n. i \<noteq> j \<longrightarrow>
        subnet_block (isl_subnet i) \<inter> subnet_block (isl_subnet j) = {}"
      using subnet_block_disjoint by blast
    have f: "i mod 64 = 63 \<and> i + 1 < n \<longrightarrow>
        isl_subnet (i + 1) = (10, i div 64 + 1, 0, 0) \<and> valid_address (isl_subnet (i + 1))"
    proof
      assume h: "i mod 64 = 63 \<and> i + 1 < n"
      then have "i + 1 < 16384" using assms(2) unfolding n_def by simp
      then have "valid_address (isl_subnet (i + 1))" by (simp add: valid_isl_subnet)
      with h isl_subnet_roll [of i]
      show "isl_subnet (i + 1) = (10, i div 64 + 1, 0, 0) \<and> valid_address (isl_subnet (i + 1))"
        by blast
    qed
    from a b c d e f show ?thesis by blast
  qed
  from R li link da dv show ?thesis unfolding n_def by blast
qed

theorem C6_blocks_witness:
  "\<exists>sats' interfaces.
     AssignIslAddresses [\<lparr>ipv4_addrs = [(127, 0, 0, 1)]\<rparr>] (replicate 130 0) = Inr (sats', interfaces) \<and>
     length interfaces = 130 \<and>
     if_address (interfaces ! 0) = (10, 0, 0, 1) \<and>
     if_address (interfaces ! 1) = (10, 0, 0, 2) \<and>
     if_address (interfaces ! 2) = (10, 0, 4, 1) \<and>
     if_address (interfaces ! 126) = (10, 0, 252, 1) \<and>
     if_address (interfaces ! 127) = (10, 0, 252, 2) \<and>
     if_address (interfaces ! 128) = (10, 1, 0, 1) \<and>
     isl_subnet 64 = (10, 1, 0, 0) \<and> valid_address (isl_subnet 64) \<and>
     subnet_block (isl_subnet 63) \<inter> subnet_block (isl_subnet 64) = {} \<and>
     distinct (map if_address interfaces)"
proof -
  let ?sats = "[\<lparr>ipv4_addrs = [(127, 0, 0, 1)]\<rparr>]"
  let ?devs = "replicate 130 (0 :: nat)"
  have h1: "\<forall>d \<in> set ?devs. d < length ?sats" by simp
  have h2: "length ?devs div 2 \<le> 16384" by simp
  have n: "length ?devs div 2 = 65" by simp
  from C6_blocks [OF h1 h2, unfolded n] obtain sats' interfaces where
    R: "AssignIslAddresses ?sats ?devs = Inr (sats', interfaces)"
    and li: "length interfaces = 2 * 65"
    and link: "\<forall>i < 65.
        if_address (interfaces ! (2 * i)) = (10, i div 64, (i mod 64) * 4, 1) \<and>
        if_address (interfaces ! (2 * i + 1)) = (10, i div 64, (i mod 64) * 4, 2) \<and>
        subnet_block (isl_subnet i) = {(10, i div 64, (i mod 64) * 4, h) | h. h < 4} \<and>
        (\<forall>x \<in> subnet_block (isl_subnet i). valid_address x) \<and>
        (\<forall>j < 65. i \<noteq> j \<longrightarrow>
           subnet_block (isl_subnet i) \<inter> subnet_block (isl_subnet j) = {}) \<and>
        (i mod 64 = 63 \<and> i + 1 < 65 \<longrightarrow>
           isl_subnet (i + 1) = (10, i div 64 + 1, 0, 0) \<and> valid_address (isl_subnet (i + 1)))"
    and da: "distinct (map if_address interfaces)"
    by blast
  have l0: "if_address (interfaces ! 0) = (10, 0, 0, 1) \<and> if_address (interfaces ! 1) = (10, 0, 0, 2)"
    using link [rule_format, of 0] by simp
  have l1: "if_address (interfaces ! 2) = (10, 0, 4, 1)"
    using link [rule_format, of 1] by simp
  have x: "(63 :: nat) < 65" "(64 :: nat) < 65" "(63 :: nat) \<noteq> 64" by simp_all
  have l63: "if_address (interfaces ! 126) = (10, 0, 252, 1) \<and>
      if_address (interfaces ! 127) = (10, 0, 252, 2)"
    using link [rule_format, of 63] by simp
  from link x(1) have "\<forall>j < 65. 63 \<noteq> j \<longrightarrow>
      subnet_block (isl_subnet 63) \<inter> subnet_block (isl_subnet j) = {}"
    by blast
  with x have dj: "subnet_block (isl_subnet 63) \<inter> subnet_block (isl_subnet 64) = {}"
    by blast
  from link x(1) have "(63 :: nat) mod 64 = 63 \<and> (63 :: nat) + 1 < 65 \<longrightarrow>
      isl_subnet (63 + 1) = (10, 63 div 64 + 1, 0, 0) \<and> valid_address (isl_subnet (63 + 1))"
    by blast
  then have roll: "isl_subnet 64 = (10, 1, 0, 0) \<and> valid_address (isl_subnet 64)"
    by (simp add: valid_address_def)
  have l64: "if_address (interfaces ! 128) = (10, 1, 0, 1)"
    using link [rule_format, of 64] by simp
  from li have li': "length interfaces = 130" by simp
  from R li' l0 l1 l63 dj roll l64 da show ?thesis by blast
qed

section \<open>Loop detection in the hop count\<close>

text \<open>The node reached from \<open>src\<close> after \<open>i\<close> applications of \<open>GetNextHop\<close> towards \<open>dst\<close>.\<close>


fun hop_walk :: "RoutingTables \<Rightarrow> nat \<Rightarrow> nat \<Rightarrow> nat \<Rightarrow> nat" where
  "hop_walk routes dst src 0 = src"
| "hop_walk routes dst src (Suc i) = hop_walk routes dst (GetNextHop routes src dst) i"

lemma hop_walk_0: "hop_walk routes dst src 0 = src"
  by simp

lemma hop_walk_Suc:
  "hop_walk routes dst src (Suc i) = hop_walk routes dst (GetNextHop routes src dst) i"
  by simp

lemma hop_loop_bad_walk:
  "(\<forall>k \<le> i. hop_walk routes dst current k \<noteq> dst) \<Longrightarrow>
   GetNextHop routes (hop_walk routes dst current i) dst = UINT32_MAX
     \<or> hop_walk routes dst current i \<in> visited
     \<or> (\<exists>j < i. hop_walk routes dst current j = hop_walk routes dst current i) \<Longrightarrow>
   hop_loop routes dst current visited hops = UINT32_MAX"
proof (induction i arbitrary: current visited hops)
  case 0
  then have "current \<noteq> dst" by (simp add: hop_walk_0)
  moreover have "GetNextHop routes current dst = UINT32_MAX \<or> current \<in> visited"
    using "0.prems"(2) by (simp add: hop_walk_0)
  ultimately show ?case
    by (subst hop_loop.simps) auto
next
  case (Suc i)
  let ?next = "GetNextHop routes current dst"
  have cur: "current \<noteq> dst"
    using Suc.prems(1) [rule_format, of 0] by (simp add: hop_walk_0)
  have shifted: "\<forall>k \<le> i. hop_walk routes dst ?next k \<noteq> dst"
  proof (intro allI impI)
    fix k assume "k \<le> i"
    then have "hop_walk routes dst current (Suc k) \<noteq> dst"
      using Suc.prems(1) [rule_format, of "Suc k"] by simp
    then show "hop_walk routes dst ?next k \<noteq> dst" by (simp add: hop_walk_Suc)
  qed
  have bad: "GetNextHop routes (hop_walk routes dst ?next i) dst = UINT32_MAX
     \<or> hop_walk routes dst ?next i \<in> insert current visited
     \<or> (\<exists>j < i. hop_walk routes dst ?next j = hop_walk routes dst ?next i)"
  proof -
    from Suc.prems(2) consider
      (a) "GetNextHop routes (hop_walk routes dst current (Suc i)) dst = UINT32_MAX"
      | (b) "hop_walk routes dst current (Suc i) \<in> visited"
      | (c) j where "j < Suc i" "hop_walk routes dst current j = hop_walk routes dst current (Suc i)"
      by blast
    then show ?thesis
    proof cases
      case a
      then show ?thesis by (simp add: hop_walk_Suc)
    next
      case b
      then show ?thesis by (simp add: hop_walk_Suc)
    next
      case c
      show ?thesis
      proof (cases j)
        case 0
        then have "hop_walk routes dst ?next i = current"
          using c(2) by (simp add: hop_walk_0 hop_walk_Suc)
        then show ?thesis by simp
      next
        case (Suc j')
        then have "j' < i" and "hop_walk routes dst ?next j' = hop_walk routes dst ?next i"
          using c by (simp_all add: hop_walk_Suc)
        then show ?thesis by blast
      qed
    qed
  qed
  show ?case
  proof (cases "current \<in> visited \<or> ?next = UINT32_MAX \<or> 100 < hops + 1")
    case True
    then show ?thesis using cur by (subst hop_loop.simps) auto
  next
    case False
    then have "hop_loop routes dst current visited hops =
        hop_loop routes dst ?next (insert current visited) (hops + 1)"
      using cur by (subst hop_loop.simps) auto
    also have "\<dots> = UINT32_MAX"
      using Suc.IH [OF shifted bad] .
    finally show ?thesis .
  qed
qed

text \<open>A corrupted table with the cycle 0 -> 1 -> 0 on the way to node 2.\<close>

definition cycle_routes :: RoutingTables where
  "cycle_routes = SetNextHop (SetNextHop empty_routes 0 2 1) 1 2 0"

lemma hop_loop_range:
  "hops \<le> 100 \<Longrightarrow> hop_loop routes dst current visited hops \<le> 100
     \<or> hop_loop routes dst current visited hops = UINT32_MAX"
proof (induction routes dst current visited hops rule: hop_loop.induct)
  case (1 routes dst current visited hops)
  show ?case
  proof (cases "current \<noteq> dst \<and> current \<notin> visited \<and> GetNextHop routes current dst \<noteq> UINT32_MAX
      \<and> \<not> 100 < hops + 1")
    case True
    then have "hop_loop routes dst current visited hops =
        hop_loop routes dst (GetNextHop routes current dst) (insert current visited) (hops + 1)"
      by (subst hop_loop.simps) auto
    moreover have "hops + 1 \<le> 100" using True by simp
    ultimately show ?thesis using "1.IH" True by simp
  next
    case False
    then show ?thesis using "1.prems" by (subst (1 2) hop_loop.simps) auto
  qed
qed

text \<open>
  Claim C4. \<open>GetHopCount\<close> is a total function (its loop ends after at most 101 rounds)
  and returns either a count of at most 100 or \<open>UINT32_MAX\<close>. For every routing table:
  when the walk of next hops from \<open>src\<close>, before it reaches \<open>dst\<close>, comes to a node
  without entry or to a node it has already visited, the result is \<open>UINT32_MAX\<close>. The
  two-node cycle of \<open>cycle_routes\<close> is an instance.
\<close>

theorem C4_loop_sentinel:
  "(GetHopCount routes src dst \<le> 100 \<or> GetHopCount routes src dst = UINT32_MAX) \<and>
   ((\<forall>k \<le> i. hop_walk routes dst src k \<noteq> dst) \<and>
    (GetNextHop routes (hop_walk routes dst src i) dst = UINT32_MAX
       \<or> (\<exists>j < i. hop_walk routes dst src j = hop_walk routes dst src i))
    \<longrightarrow> GetHopCount routes src dst = UINT32_MAX)"
proof (intro conjI impI)
  show "GetHopCount routes src dst \<le> 100 \<or> GetHopCount routes src dst = UINT32_MAX"
    using hop_loop_range [of 0 routes dst src "{}"] by (simp add: GetHopCount_def)
next
  assume a: "(\<forall>k \<le> i. hop_walk routes dst src k \<noteq> dst) \<and>
    (GetNextHop routes (hop_walk routes dst src i) dst = UINT32_MAX
       \<or> (\<exists>j < i. hop_walk routes dst src j = hop_walk routes dst src i))"
  then have "src \<noteq> dst" by (auto simp: hop_walk_0 dest: spec [of _ 0])
  moreover have "hop_loop routes dst src {} 0 = UINT32_MAX"
    using a by (intro hop_loop_bad_walk [of i]) auto
  ultimately show "GetHopCount routes src dst = UINT32_MAX"
    by (simp add: GetHopCount_def)
qed

theorem C4_loop_sentinel_witness:
  "GetNextHop cycle_routes 0 2 = 1 \<and> GetNextHop cycle_routes 1 2 = 0 \<and>
   GetHopCount cycle_routes 0 2 = UINT32_MAX \<and>
   GetHopCount empty_routes 0 2 = UINT32_MAX"
proof -
  have n0: "GetNextHop cycle_routes 0 2 = 1" and n1: "GetNextHop cycle_routes 1 2 = 0"
    by (simp_all add: cycle_routes_def SetNextHop_def GetNextHop_def empty_routes_def)
  have w0: "hop_walk cycle_routes 2 0 0 = 0"
    and w1: "hop_walk cycle_routes 2 0 (Suc 0) = 1"
    and w2: "hop_walk cycle_routes 2 0 (Suc (Suc 0)) = 0"
    using n0 n1 by simp_all
  have le2: "k \<le> Suc (Suc 0) \<Longrightarrow> k = 0 \<or> k = Suc 0 \<or> k = Suc (Suc 0)" for k by arith
  have p1: "\<forall>k \<le> Suc (Suc 0). hop_walk cycle_routes 2 0 k \<noteq> 2"
    using w0 w1 w2 le2 by fastforce
  have p2: "\<exists>j < Suc (Suc 0). hop_walk cycle_routes 2 0 j = hop_walk cycle_routes 2 0 (Suc (Suc 0))"
    using w0 w2 by (intro exI [of _ 0]) simp
  have e: "GetNextHop empty_routes (hop_walk empty_routes 2 0 0) 2 = UINT32_MAX"
    by (simp add: GetNextHop_def empty_routes_def)
  have e0: "\<forall>k \<le> 0. hop_walk empty_routes 2 0 k \<noteq> 2"
    by (simp add: hop_walk_0)
  from C4_loop_sentinel [of cycle_routes 0 2 "Suc (Suc 0)"] p1 p2
  have c: "GetHopCount cycle_routes 0 2 = UINT32_MAX" by blast
  from C4_loop_sentinel [of empty_routes 0 2 0] e e0
  have d: "GetHopCount empty_routes 0 2 = UINT32_MAX" by blast
  from n0 n1 c d show ?thesis by simp
qed

section \<open>Shortest paths\<close>

subsection \<open>Walks in the topology\<close>

text \<open>
  \<open>walk t a k b\<close>: node \<open>b\<close> is reached from node \<open>a\<close> in \<open>k\<close> hops, each hop going to a
  neighbour of the node before.
\<close>

fun walk :: "IslTopology \<Rightarrow> nat \<Rightarrow> nat \<Rightarrow> nat \<Rightarrow> bool" where
  "walk t a 0 b = (a = b)"
| "walk t a (Suc k) b = (\<exists>u \<in> set (nbrs_of t a). walk t u k b)"

text \<open>The neighbour vectors of the nodes \<open>0 .. numSatellites - 1\<close> hold node ids only.\<close>

definition neighbors_in_range :: "IslTopology \<Rightarrow> bool" where
  "neighbors_in_range t =
     (\<forall>u < numSatellites t. \<forall>v \<in> set (nbrs_of t u). v < numSatellites t)"

lemma walk_snoc: "walk t a k u \<Longrightarrow> v \<in> set (nbrs_of t u) \<Longrightarrow> walk t a (Suc k) v"
proof (induction k arbitrary: a)
  case 0
  then show ?case by auto
next
  case (Suc k)
  from Suc.prems(1) obtain w where w: "w \<in> set (nbrs_of t a)" "walk t w k u" by auto
  from Suc.IH [OF w(2) Suc.prems(2)] have "walk t w (Suc k) v" .
  with w(1) show ?case by (subst walk.simps) blast
qed

lemma walk_snocE: "walk t a (Suc k) v \<Longrightarrow> \<exists>u. walk t a k u \<and> v \<in> set (nbrs_of t u)"
proof (induction k arbitrary: a)
  case 0
  then show ?case by auto
next
  case (Suc k)
  from Suc.prems obtain w where w: "w \<in> set (nbrs_of t a)" "walk t w (Suc k) v"
    by (subst (asm) walk.simps) blast
  from Suc.IH [OF w(2)] obtain u where u: "walk t w k u" "v \<in> set (nbrs_of t u)" by blast
  from w(1) u(1) have "walk t a (Suc k) u" by auto
  with u(2) show ?case by blast
qed

lemma walk_append: "walk t a j b \<Longrightarrow> walk t b k c \<Longrightarrow> walk t a (j + k) c"
proof (induction j arbitrary: a)
  case 0
  then show ?case by simp
next
  case (Suc j)
  from Suc.prems(1) obtain w where w: "w \<in> set (nbrs_of t a)" "walk t w j b" by auto
  from Suc.IH [OF w(2) Suc.prems(2)] w(1) show ?case by auto
qed

lemma walk_in_range:
  "neighbors_in_range t \<Longrightarrow> a < numSatellites t \<Longrightarrow> walk t a k b \<Longrightarrow> b < numSatellites t"
proof (induction k arbitrary: a)
  case 0
  then show ?case by simp
next
  case (Suc k)
  from Suc.prems(3) obtain w where w: "w \<in> set (nbrs_of t a)" "walk t w k b" by auto
  from Suc.prems(1,2) w(1) have "w < numSatellites t"
    by (auto simp: neighbors_in_range_def)
  from Suc.IH [OF Suc.prems(1) this w(2)] show ?case .
qed

subsection \<open>Facts on the queue and the visited flags\<close>

lemma pq_top_in: "pq \<noteq> [] \<Longrightarrow> pq_top pq \<in> set pq"
  unfolding pq_top_def by (intro Min_in) auto

lemma pq_top_least: "x \<in> set pq \<Longrightarrow> pq_top pq \<le> x"
  unfolding pq_top_def by (intro Min_le) auto

lemma set_pq_pop: "set (pq_pop pq) \<subseteq> set pq"
  unfolding pq_pop_def by (rule set_remove1_subset)

lemma in_pq_pop: "x \<in> set pq \<Longrightarrow> x \<noteq> pq_top pq \<Longrightarrow> x \<in> set (pq_pop pq)"
  unfolding pq_pop_def pq_top_def by simp

lemma unvisited_count_le: "unvisited_count vs \<le> length vs"
  unfolding unvisited_count_def by simp

lemma unvisited_count_replicate: "unvisited_count (replicate n False) = n"
  unfolding unvisited_count_def by simp

lemma unvisited_count_pos: "i < length vs \<Longrightarrow> \<not> vs ! i \<Longrightarrow> 0 < unvisited_count vs"
  using unvisited_count_mark [of i vs] by simp

subsection \<open>The invariant of the Dijkstra loop\<close>

text \<open>
  The parts of the invariant of \<open>while (!pq.empty())\<close> for the run from \<open>src\<close>: the sizes
  of the vectors; the entries of the source; every queue entry is a node with a finite
  key that is no less than its distance; every unvisited node with a finite distance
  is queued with that distance; a finite distance is the length of a walk; the
  distance of a visited node is final and least; the edges out of visited nodes are
  relaxed, except the ones in \<open>pending\<close>; distances are bounded by the number of
  visited nodes; \<open>prev\<close> points to a visited neighbour one hop closer.
\<close>

definition c_len :: "IslTopology \<Rightarrow> nat \<Rightarrow> nat list \<Rightarrow> nat list \<Rightarrow> bool list \<Rightarrow> bool" where
  "c_len t src dists prev visited \<longleftrightarrow>
     length dists = numSatellites t \<and> length prev = numSatellites t \<and>
     length visited = numSatellites t \<and> src < numSatellites t"

definition c_src :: "nat \<Rightarrow> nat list \<Rightarrow> nat list \<Rightarrow> bool" where
  "c_src src dists prev \<longleftrightarrow> dists ! src = 0 \<and> prev ! src = UINT32_MAX"

definition c_pq :: "IslTopology \<Rightarrow> nat list \<Rightarrow> PQNode list \<Rightarrow> bool" where
  "c_pq t dists pq \<longleftrightarrow>
     (\<forall>d v. (d, v) \<in> set pq \<longrightarrow> v < numSatellites t \<and> dists ! v \<le> d \<and> d < INF_dist)"

definition c_queued :: "IslTopology \<Rightarrow> nat list \<Rightarrow> bool list \<Rightarrow> PQNode list \<Rightarrow> bool" where
  "c_queued t dists visited pq \<longleftrightarrow>
     (\<forall>v < numSatellites t. \<not> visited ! v \<longrightarrow> dists ! v \<noteq> INF_dist \<longrightarrow> (dists ! v, v) \<in> set pq)"

definition c_real :: "IslTopology \<Rightarrow> nat \<Rightarrow> nat list \<Rightarrow> bool" where
  "c_real t src dists \<longleftrightarrow>
     (\<forall>v < numSatellites t. dists ! v \<noteq> INF_dist \<longrightarrow> walk t src (dists ! v) v)"

definition c_short :: "IslTopology \<Rightarrow> nat \<Rightarrow> nat list \<Rightarrow> bool list \<Rightarrow> bool" where
  "c_short t src dists visited \<longleftrightarrow>
     (\<forall>v < numSatellites t. visited ! v \<longrightarrow>
        dists ! v \<noteq> INF_dist \<and> (\<forall>k. walk t src k v \<longrightarrow> dists ! v \<le> k))"

definition c_edge :: "IslTopology \<Rightarrow> (nat \<times> nat) set \<Rightarrow> nat list \<Rightarrow> bool list \<Rightarrow> bool" where
  "c_edge t pending dists visited \<longleftrightarrow>
     (\<forall>u < numSatellites t. visited ! u \<longrightarrow>
        (\<forall>v \<in> set (nbrs_of t u). (u, v) \<notin> pending \<longrightarrow> dists ! v \<le> dists ! u + 1))"

definition c_cnt :: "IslTopology \<Rightarrow> nat list \<Rightarrow> bool list \<Rightarrow> bool" where
  "c_cnt t dists visited \<longleftrightarrow>
     (\<forall>v < numSatellites t.
        (visited ! v \<longrightarrow> dists ! v + unvisited_count visited < numSatellites t) \<and>
        (dists ! v \<noteq> INF_dist \<longrightarrow> dists ! v + unvisited_count visited \<le> numSatellites t))"

definition c_prev :: "IslTopology \<Rightarrow> nat \<Rightarrow> nat list \<Rightarrow> nat list \<Rightarrow> bool list \<Rightarrow> bool" where
  "c_prev t src dists prev visited \<longleftrightarrow>
     (\<forall>v < numSatellites t.
        (prev ! v \<noteq> UINT32_MAX \<longrightarrow>
           prev ! v < numSatellites t \<and> visited ! (prev ! v) \<and>
           v \<in> set (nbrs_of t (prev ! v)) \<and> dists ! v = dists ! (prev ! v) + 1) \<and>
        (prev ! v = UINT32_MAX \<longrightarrow> v = src \<or> dists ! v = INF_dist))"

definition dj_inv :: "IslTopology \<Rightarrow> nat \<Rightarrow> (nat \<times> nat) set \<Rightarrow> nat list \<Rightarrow> nat list \<Rightarrow> bool list
    \<Rightarrow> PQNode list \<Rightarrow> bool" where
  "dj_inv t src pending dists prev visited pq \<longleftrightarrow>
     c_len t src dists prev visited \<and> c_src src dists prev \<and> c_pq t dists pq \<and>
     c_queued t dists visited pq \<and> c_real t src dists \<and> c_short t src dists visited \<and>
     c_edge t pending dists visited \<and> c_cnt t dists visited \<and>
     c_prev t src dists prev visited"

lemma dj_invI:
  "c_len t src dists prev visited \<Longrightarrow> c_src src dists prev \<Longrightarrow> c_pq t dists pq \<Longrightarrow>
   c_queued t dists visited pq \<Longrightarrow> c_real t src dists \<Longrightarrow> c_short t src dists visited \<Longrightarrow>
   c_edge t pending dists visited \<Longrightarrow> c_cnt t dists visited \<Longrightarrow>
   c_prev t src dists prev visited \<Longrightarrow> dj_inv t src pending dists prev visited pq"
  by (simp add: dj_inv_def)

lemma dj_invD:
  assumes "dj_inv t src pending dists prev visited pq"
  shows "c_len t src dists prev visited" and "c_src src dists prev" and "c_pq t dists pq"
    and "c_queued t dists visited pq" and "c_real t src dists" and "c_short t src dists visited"
    and "c_edge t pending dists visited" and "c_cnt t dists visited"
    and "c_prev t src dists prev visited"
  using assms by (simp_all add: dj_inv_def)

lemma c_pqD:
  "c_pq t dists pq \<Longrightarrow> (d, v) \<in> set pq \<Longrightarrow> v < numSatellites t \<and> dists ! v \<le> d \<and> d < INF_dist"
  by (simp add: c_pq_def)

lemma c_queuedD:
  "c_queued t dists visited pq \<Longrightarrow> v < numSatellites t \<Longrightarrow> \<not> visited ! v \<Longrightarrow>
     dists ! v \<noteq> INF_dist \<Longrightarrow> (dists ! v, v) \<in> set pq"
  by (simp add: c_queued_def)

lemma c_realD:
  "c_real t src dists \<Longrightarrow> v < numSatellites t \<Longrightarrow> dists ! v \<noteq> INF_dist \<Longrightarrow>
     walk t src (dists ! v) v"
  by (simp add: c_real_def)

lemma c_shortD1:
  "c_short t src dists visited \<Longrightarrow> v < numSatellites t \<Longrightarrow> visited ! v \<Longrightarrow>
     dists ! v \<noteq> INF_dist"
  by (simp add: c_short_def)

lemma c_shortD2:
  "c_short t src dists visited \<Longrightarrow> v < numSatellites t \<Longrightarrow> visited ! v \<Longrightarrow>
     walk t src k v \<Longrightarrow> dists ! v \<le> k"
  by (simp add: c_short_def)

lemma c_edgeD:
  "c_edge t pending dists visited \<Longrightarrow> u < numSatellites t \<Longrightarrow> visited ! u \<Longrightarrow>
     v \<in> set (nbrs_of t u) \<Longrightarrow> (u, v) \<notin> pending \<Longrightarrow> dists ! v \<le> dists ! u + 1"
  by (simp add: c_edge_def)

lemma c_cntD1:
  "c_cnt t dists visited \<Longrightarrow> v < numSatellites t \<Longrightarrow> visited ! v \<Longrightarrow>
     dists ! v + unvisited_count visited < numSatellites t"
  by (simp add: c_cnt_def)

lemma c_cntD2:
  "c_cnt t dists visited \<Longrightarrow> v < numSatellites t \<Longrightarrow> dists ! v \<noteq> INF_dist \<Longrightarrow>
     dists ! v + unvisited_count visited \<le> numSatellites t"
  by (simp add: c_cnt_def)

lemma c_prevD1:
  "c_prev t src dists prev visited \<Longrightarrow> v < numSatellites t \<Longrightarrow> prev ! v \<noteq> UINT32_MAX \<Longrightarrow>
     prev ! v < numSatellites t \<and> visited ! (prev ! v) \<and>
     v \<in> set (nbrs_of t (prev ! v)) \<and> dists ! v = dists ! (prev ! v) + 1"
  by (simp add: c_prev_def)

lemma c_prevD2:
  "c_prev t src dists prev visited \<Longrightarrow> v < numSatellites t \<Longrightarrow> prev ! v = UINT32_MAX \<Longrightarrow>
     v = src \<or> dists ! v = INF_dist"
  by (simp add: c_prev_def)

lemma INF_dist_pos: "0 < INF_dist"
  by (simp add: INF_dist_def UINT32_MAX_def)

lemma pq_top_fst_le: "(d, v) \<in> set pq \<Longrightarrow> fst (pq_top pq) \<le> d"
proof -
  assume "(d, v) \<in> set pq"
  then have "pq_top pq \<le> (d, v)" by (rule pq_top_least)
  then show ?thesis by (auto simp: less_eq_prod_def)
qed

text \<open>
  On every walk from the source there is a first node that is not visited yet; its
  distance entry is at most its position on the walk.
\<close>

lemma first_unvisited:
  assumes range: "neighbors_in_range t" and nmax: "numSatellites t \<le> UINT32_MAX"
    and len: "c_len t src dists prev visited" and s: "c_src src dists prev"
    and e: "c_edge t {} dists visited" and c: "c_cnt t dists visited"
  shows "walk t src k v \<Longrightarrow>
     (visited ! v \<and> dists ! v \<le> k) \<or>
     (\<exists>x < numSatellites t. \<not> visited ! x \<and> dists ! x \<noteq> INF_dist \<and> dists ! x \<le> k)"
proof (induction k arbitrary: v)
  case 0
  then have v: "v = src" by simp
  have src: "src < numSatellites t" and d0: "dists ! src = 0"
    using len s by (simp_all add: c_len_def c_src_def)
  show ?case
  proof (cases "visited ! src")
    case True
    then show ?thesis using v d0 by simp
  next
    case False
    then have "\<not> visited ! src \<and> dists ! src \<noteq> INF_dist \<and> dists ! src \<le> 0"
      using d0 INF_dist_pos by simp
    with src show ?thesis by blast
  qed
next
  case (Suc k)
  from walk_snocE [OF Suc.prems] obtain u where u: "walk t src k u" "v \<in> set (nbrs_of t u)"
    by blast
  have src: "src < numSatellites t" and lv: "length visited = numSatellites t"
    using len by (simp_all add: c_len_def)
  have un: "u < numSatellites t" using walk_in_range [OF range src u(1)] .
  have vn: "v < numSatellites t"
    using range un u(2) by (auto simp: neighbors_in_range_def)
  from Suc.IH [OF u(1)] show ?case
  proof
    assume left: "visited ! u \<and> dists ! u \<le> k"
    have le: "dists ! v \<le> dists ! u + 1"
      using c_edgeD [OF e un _ u(2)] left by simp
    show ?thesis
    proof (cases "visited ! v")
      case True
      then show ?thesis using le left by simp
    next
      case False
      have "0 < unvisited_count visited"
        using unvisited_count_pos [of v visited] False vn lv by simp
      moreover have "dists ! u + unvisited_count visited < numSatellites t"
        using c_cntD1 [OF c un] left by simp
      ultimately have "dists ! v < UINT32_MAX" using le nmax by linarith
      then have "dists ! v \<noteq> INF_dist" by (simp add: INF_dist_def)
      moreover have "dists ! v \<le> Suc k" using le left by simp
      ultimately show ?thesis using False vn by blast
    qed
  next
    assume "\<exists>x < numSatellites t. \<not> visited ! x \<and> dists ! x \<noteq> INF_dist \<and> dists ! x \<le> k"
    then obtain x where "x < numSatellites t" "\<not> visited ! x" "dists ! x \<noteq> INF_dist" "dists ! x \<le> k"
      by blast
    then have "x < numSatellites t \<and> \<not> visited ! x \<and> dists ! x \<noteq> INF_dist \<and> dists ! x \<le> Suc k"
      by simp
    then show ?thesis by blast
  qed
qed

text \<open>The state before the first round satisfies the invariant.\<close>

lemma dj_inv_init:
  assumes src: "src < numSatellites t"
  shows "dj_inv t src {} ((replicate (numSatellites t) INF_dist)[src := 0])
           (replicate (numSatellites t) UINT32_MAX) (replicate (numSatellites t) False)
           (pq_push (0, src) [])"
proof (rule dj_invI)
  let ?n = "numSatellites t"
  let ?d = "(replicate ?n INF_dist)[src := 0]"
  have d_src: "?d ! src = 0" using src by simp
  have d_other: "v < ?n \<Longrightarrow> v \<noteq> src \<Longrightarrow> ?d ! v = INF_dist" for v by simp
  have only_src: "v < ?n \<Longrightarrow> ?d ! v \<noteq> INF_dist \<Longrightarrow> v = src" for v
    using d_other by blast
  show "c_len t src ?d (replicate ?n UINT32_MAX) (replicate ?n False)"
    using src by (simp add: c_len_def)
  show "c_src src ?d (replicate ?n UINT32_MAX)"
    using src by (simp add: c_src_def)
  show "c_pq t ?d (pq_push (0, src) [])"
    using src d_src INF_dist_pos by (simp add: c_pq_def pq_push_def)
  show "c_queued t ?d (replicate ?n False) (pq_push (0, src) [])"
    unfolding c_queued_def
  proof (intro allI impI)
    fix v assume "v < ?n" and "?d ! v \<noteq> INF_dist"
    then have "v = src" by (rule only_src)
    then show "(?d ! v, v) \<in> set (pq_push (0, src) [])"
      using d_src by (simp add: pq_push_def)
  qed
  show "c_real t src ?d"
    unfolding c_real_def
  proof (intro allI impI)
    fix v assume "v < ?n" and "?d ! v \<noteq> INF_dist"
    then have "v = src" by (rule only_src)
    then show "walk t src (?d ! v) v" using d_src by simp
  qed
  show "c_short t src ?d (replicate ?n False)"
    by (simp add: c_short_def)
  show "c_edge t {} ?d (replicate ?n False)"
    by (simp add: c_edge_def)
  show "c_cnt t ?d (replicate ?n False)"
    unfolding c_cnt_def
  proof (intro allI impI conjI)
    fix v assume "v < ?n" and "replicate ?n False ! v"
    then show "?d ! v + unvisited_count (replicate ?n False) < ?n" by simp
  next
    fix v assume "v < ?n" and "?d ! v \<noteq> INF_dist"
    then have "v = src" by (rule only_src)
    then show "?d ! v + unvisited_count (replicate ?n False) \<le> ?n"
      using d_src by (simp add: unvisited_count_replicate)
  qed
  show "c_prev t src ?d (replicate ?n UINT32_MAX) (replicate ?n False)"
    unfolding c_prev_def
  proof (intro allI impI conjI)
    fix v assume "v < ?n" and "replicate ?n UINT32_MAX ! v \<noteq> UINT32_MAX"
    then have False by simp
    then show "replicate ?n UINT32_MAX ! v < ?n" and "replicate ?n False ! (replicate ?n UINT32_MAX ! v)"
      and "v \<in> set (nbrs_of t (replicate ?n UINT32_MAX ! v))"
      and "?d ! v = ?d ! (replicate ?n UINT32_MAX ! v) + 1"
      by simp_all
  next
    fix v assume "v < ?n"
    then show "v = src \<or> ?d ! v = INF_dist" using d_other by blast
  qed
qed

text \<open>Popping an entry of a node that is visited already keeps the invariant.\<close>

lemma dj_inv_pop_visited:
  assumes inv: "dj_inv t src {} dists prev visited pq" and ne: "pq \<noteq> []"
    and vis: "visited ! snd (pq_top pq)"
  shows "dj_inv t src {} dists prev visited (pq_pop pq)"
proof (rule dj_invI)
  note D = dj_invD [OF inv]
  show "c_len t src dists prev visited" "c_src src dists prev" "c_real t src dists"
    "c_short t src dists visited" "c_edge t {} dists visited" "c_cnt t dists visited"
    "c_prev t src dists prev visited"
    using D by simp_all
  show "c_pq t dists (pq_pop pq)"
    using D(3) set_pq_pop [of pq] unfolding c_pq_def by blast
  show "c_queued t dists visited (pq_pop pq)"
    unfolding c_queued_def
  proof (intro allI impI)
    fix v assume v: "v < numSatellites t" "\<not> visited ! v" "dists ! v \<noteq> INF_dist"
    then have "(dists ! v, v) \<in> set pq" using c_queuedD [OF D(4)] by simp
    moreover have "(dists ! v, v) \<noteq> pq_top pq"
    proof
      assume "(dists ! v, v) = pq_top pq"
      then have "snd (pq_top pq) = v" by (metis snd_conv)
      with vis v(2) show False by simp
    qed
    ultimately show "(dists ! v, v) \<in> set (pq_pop pq)" by (rule in_pq_pop)
  qed
qed

text \<open>Marking the node on top of the queue, when it is not visited yet.\<close>

lemma dj_inv_visit:
  assumes range: "neighbors_in_range t" and nmax: "numSatellites t \<le> UINT32_MAX"
    and inv: "dj_inv t src {} dists prev visited pq" and ne: "pq \<noteq> []"
    and nv: "\<not> visited ! snd (pq_top pq)"
  shows "snd (pq_top pq) < numSatellites t \<and>
    dj_inv t src ({snd (pq_top pq)} \<times> set (nbrs_of t (snd (pq_top pq)))) dists prev
      (visited[snd (pq_top pq) := True]) (pq_pop pq)"
proof -
  let ?n = "numSatellites t"
  define u where "u = snd (pq_top pq)"
  define d where "d = fst (pq_top pq)"
  let ?vis = "visited[u := True]"
  note D = dj_invD [OF inv]
  have top: "(d, u) \<in> set pq" using pq_top_in [OF ne] by (simp add: u_def d_def)
  have un: "u < ?n" and du: "dists ! u \<le> d" and dfin: "d < INF_dist"
    using c_pqD [OF D(3) top] by simp_all
  have lv: "length visited = ?n" using D(1) by (simp add: c_len_def)
  have nvu: "\<not> visited ! u" using nv by (simp add: u_def)
  have vis_eq: "w < ?n \<Longrightarrow> ?vis ! w = (w = u \<or> visited ! w)" for w
    using lv un by (auto simp: nth_list_update)
  have uc: "unvisited_count ?vis < unvisited_count visited"
    using unvisited_count_mark [of u visited] un lv nvu by simp
  have dists_u: "dists ! u \<noteq> INF_dist" using du dfin by simp
  have "dj_inv t src ({u} \<times> set (nbrs_of t u)) dists prev ?vis (pq_pop pq)"
  proof (rule dj_invI)
    show "c_len t src dists prev ?vis" using D(1) by (simp add: c_len_def)
    show "c_src src dists prev" "c_real t src dists" using D by simp_all
    show "c_pq t dists (pq_pop pq)"
      using D(3) set_pq_pop [of pq] unfolding c_pq_def by blast
    show "c_queued t dists ?vis (pq_pop pq)"
      unfolding c_queued_def
    proof (intro allI impI)
      fix v assume v: "v < ?n" "\<not> ?vis ! v" "dists ! v \<noteq> INF_dist"
      then have vu: "v \<noteq> u" and nvv: "\<not> visited ! v" using vis_eq by simp_all
      have "(dists ! v, v) \<in> set pq" using c_queuedD [OF D(4) v(1) nvv v(3)] .
      moreover have "(dists ! v, v) \<noteq> pq_top pq"
      proof
        assume "(dists ! v, v) = pq_top pq"
        then have "snd (pq_top pq) = v" by (metis snd_conv)
        with vu show False by (simp add: u_def)
      qed
      ultimately show "(dists ! v, v) \<in> set (pq_pop pq)" by (rule in_pq_pop)
    qed
    show "c_short t src dists ?vis"
      unfolding c_short_def
    proof (intro allI impI conjI)
      fix v assume v: "v < ?n" "?vis ! v"
      show "dists ! v \<noteq> INF_dist"
        using v vis_eq dists_u c_shortD1 [OF D(6)] by blast
    next
      fix v k assume v: "v < ?n" "?vis ! v" and w: "walk t src k v"
      show "dists ! v \<le> k"
      proof (cases "v = u")
        case False
        then show ?thesis using v vis_eq c_shortD2 [OF D(6) _ _ w] by simp
      next
        case True
        from first_unvisited [OF range nmax D(1) D(2) D(7) D(8) w] nvu True
        obtain x where x: "x < ?n" "\<not> visited ! x" "dists ! x \<noteq> INF_dist" "dists ! x \<le> k"
          by blast
        have "(dists ! x, x) \<in> set pq" using c_queuedD [OF D(4) x(1,2,3)] .
        then have "d \<le> dists ! x" unfolding d_def by (rule pq_top_fst_le)
        then show ?thesis using du x(4) True by simp
      qed
    qed
    show "c_edge t ({u} \<times> set (nbrs_of t u)) dists ?vis"
      unfolding c_edge_def
    proof (intro allI impI ballI)
      fix w v assume w: "w < ?n" "?vis ! w" "v \<in> set (nbrs_of t w)"
        "(w, v) \<notin> {u} \<times> set (nbrs_of t u)"
      then have "w \<noteq> u" by auto
      then have "visited ! w" using w vis_eq by simp
      then show "dists ! v \<le> dists ! w + 1"
        using c_edgeD [OF D(7) w(1) _ w(3)] by simp
    qed
    show "c_cnt t dists ?vis"
      unfolding c_cnt_def
    proof (intro allI impI conjI)
      fix v assume v: "v < ?n" "?vis ! v"
      show "dists ! v + unvisited_count ?vis < ?n"
      proof (cases "v = u")
        case True
        then show ?thesis using c_cntD2 [OF D(8) un dists_u] uc by simp
      next
        case False
        then have "visited ! v" using v vis_eq by simp
        then show ?thesis using c_cntD1 [OF D(8) v(1)] uc by simp
      qed
    next
      fix v assume v: "v < ?n" "dists ! v \<noteq> INF_dist"
      show "dists ! v + unvisited_count ?vis \<le> ?n"
        using c_cntD2 [OF D(8) v] uc by simp
    qed
    show "c_prev t src dists prev ?vis"
      unfolding c_prev_def
    proof (intro allI impI conjI)
      fix v assume v: "v < ?n" "prev ! v \<noteq> UINT32_MAX"
      note P = c_prevD1 [OF D(9) v]
      show "prev ! v < ?n" "v \<in> set (nbrs_of t (prev ! v))" "dists ! v = dists ! (prev ! v) + 1"
        using P by simp_all
      show "?vis ! (prev ! v)" using P vis_eq by simp
    next
      fix v assume v: "v < ?n" "prev ! v = UINT32_MAX"
      show "v = src \<or> dists ! v = INF_dist" using c_prevD2 [OF D(9) v] .
    qed
  qed
  then show ?thesis using un by (simp add: u_def)
qed

text \<open>Inside the relaxation loop: a neighbour that is left as it is.\<close>

lemma dj_inv_relax_skip:
  assumes inv: "dj_inv t src ({u} \<times> set (v # vs)) dists prev visited pq"
    and un: "u < numSatellites t" and vu: "visited ! u"
    and e: "v \<in> set (nbrs_of t u)" and vn: "v < numSatellites t"
    and le: "visited ! v \<or> dists ! v \<le> dists ! u + 1"
  shows "dj_inv t src ({u} \<times> set vs) dists prev visited pq"
proof (rule dj_invI)
  note D = dj_invD [OF inv]
  show "c_len t src dists prev visited" "c_src src dists prev" "c_pq t dists pq"
    "c_queued t dists visited pq" "c_real t src dists" "c_short t src dists visited"
    "c_cnt t dists visited" "c_prev t src dists prev visited"
    using D by simp_all
  have uv: "dists ! v \<le> dists ! u + 1"
  proof (cases "visited ! v")
    case True
    have "walk t src (dists ! u) u"
      using c_realD [OF D(5) un] c_shortD1 [OF D(6) un vu] by simp
    then have "walk t src (Suc (dists ! u)) v" using e by (rule walk_snoc)
    then show ?thesis using c_shortD2 [OF D(6) vn True] by simp
  next
    case False
    then show ?thesis using le by simp
  qed
  show "c_edge t ({u} \<times> set vs) dists visited"
    unfolding c_edge_def
  proof (intro allI impI ballI)
    fix w x assume w: "w < numSatellites t" "visited ! w" "x \<in> set (nbrs_of t w)"
      "(w, x) \<notin> {u} \<times> set vs"
    show "dists ! x \<le> dists ! w + 1"
    proof (cases "(w, x) \<in> {u} \<times> set (v # vs)")
      case False
      then show ?thesis using c_edgeD [OF D(7) w(1,2,3)] by simp
    next
      case True
      then have "w = u" and "x = v" using w(4) by auto
      then show ?thesis using uv by simp
    qed
  qed
qed

text \<open>
  The new distance \<open>dist[u] + 1\<close> of a neighbour that is not visited is below the number
  of satellites, so the \<open>uint32_t\<close> addition does not wrap.
\<close>

lemma relax_new_dist:
  assumes nmax: "numSatellites t \<le> UINT32_MAX"
    and inv: "dj_inv t src pending dists prev visited pq"
    and un: "u < numSatellites t" and vu: "visited ! u"
    and vn: "v < numSatellites t" and nv: "\<not> visited ! v"
  shows "dists ! u + 1 < numSatellites t" and "(dists ! u + 1) mod 2 ^ 32 = dists ! u + 1"
    and "dists ! u + 1 < INF_dist"
proof -
  note D = dj_invD [OF inv]
  have lv: "length visited = numSatellites t" using D(1) by (simp add: c_len_def)
  have "0 < unvisited_count visited"
    using unvisited_count_pos [of v visited] vn nv lv by simp
  moreover have "dists ! u + unvisited_count visited < numSatellites t"
    using c_cntD1 [OF D(8) un vu] .
  ultimately show lt: "dists ! u + 1 < numSatellites t" by linarith
  then have "dists ! u + 1 < 4294967295" using nmax by (simp add: UINT32_MAX_def)
  then show "(dists ! u + 1) mod 2 ^ 32 = dists ! u + 1" by simp
  show "dists ! u + 1 < INF_dist" using lt nmax by (simp add: INF_dist_def)
qed

text \<open>Inside the relaxation loop: a neighbour whose distance is lowered.\<close>

lemma dj_inv_relax_update:
  assumes nmax: "numSatellites t \<le> UINT32_MAX"
    and inv: "dj_inv t src ({u} \<times> set (v # vs)) dists prev visited pq"
    and un: "u < numSatellites t" and vu: "visited ! u"
    and e: "v \<in> set (nbrs_of t u)" and vn: "v < numSatellites t"
    and nv: "\<not> visited ! v" and lt: "dists ! u + 1 < dists ! v"
  shows "dj_inv t src ({u} \<times> set vs) (dists[v := dists ! u + 1]) (prev[v := u]) visited
           (pq_push (dists ! u + 1, v) pq)"
proof (rule dj_invI)
  let ?n = "numSatellites t"
  let ?nd = "dists ! u + 1"
  let ?d = "dists[v := ?nd]"
  let ?p = "prev[v := u]"
  let ?q = "pq_push (?nd, v) pq"
  note D = dj_invD [OF inv]
  have len: "length dists = ?n" "length prev = ?n" "length visited = ?n" "src < ?n"
    using D(1) by (simp_all add: c_len_def)
  have uv: "u \<noteq> v" using vu nv by auto
  have d_v: "?d ! v = ?nd" using len vn by simp
  have d_o: "w \<noteq> v \<Longrightarrow> ?d ! w = dists ! w" for w by simp
  have d_le: "w < ?n \<Longrightarrow> ?d ! w \<le> dists ! w" for w
    using d_v d_o lt by (cases "w = v") simp_all
  have p_v: "?p ! v = u" using len vn by simp
  have p_o: "w \<noteq> v \<Longrightarrow> ?p ! w = prev ! w" for w by simp
  have src0: "dists ! src = 0" "prev ! src = UINT32_MAX" using D(2) by (simp_all add: c_src_def)
  have v_src: "v \<noteq> src" using lt src0 by auto
  have nd_fin: "?nd < INF_dist" and nd_n: "?nd < ?n"
    using relax_new_dist [OF nmax inv un vu vn nv] by simp_all
  have du_fin: "dists ! u \<noteq> INF_dist" using c_shortD1 [OF D(6) un vu] .
  have set_q: "set ?q = insert (?nd, v) (set pq)" by (simp add: pq_push_def)
  show "c_len t src ?d ?p visited" using len by (simp add: c_len_def)
  show "c_src src ?d ?p" using src0 v_src by (simp add: c_src_def)
  show "c_pq t ?d ?q"
    unfolding c_pq_def
  proof (intro allI impI)
    fix d w assume "(d, w) \<in> set ?q"
    then consider "d = ?nd" "w = v" | "(d, w) \<in> set pq" using set_q by auto
    then show "w < ?n \<and> ?d ! w \<le> d \<and> d < INF_dist"
    proof cases
      case 1
      then show ?thesis using vn d_v nd_fin by simp
    next
      case 2
      from c_pqD [OF D(3) 2] have "w < ?n" "dists ! w \<le> d" "d < INF_dist" by simp_all
      then show ?thesis using d_le [of w] by simp
    qed
  qed
  show "c_queued t ?d visited ?q"
    unfolding c_queued_def
  proof (intro allI impI)
    fix w assume w: "w < ?n" "\<not> visited ! w" "?d ! w \<noteq> INF_dist"
    show "(?d ! w, w) \<in> set ?q"
    proof (cases "w = v")
      case True
      then show ?thesis using d_v set_q by simp
    next
      case False
      then have "(dists ! w, w) \<in> set pq" using c_queuedD [OF D(4) w(1,2)] w(3) d_o by simp
      then show ?thesis using False d_o set_q by simp
    qed
  qed
  have walk_u: "walk t src (dists ! u) u" using c_realD [OF D(5) un du_fin] .
  have walk_v: "walk t src ?nd v" using walk_snoc [OF walk_u e] by simp
  show "c_real t src ?d"
    unfolding c_real_def
  proof (intro allI impI)
    fix w assume w: "w < ?n" "?d ! w \<noteq> INF_dist"
    show "walk t src (?d ! w) w"
    proof (cases "w = v")
      case True
      then show ?thesis using d_v walk_v by simp
    next
      case False
      then show ?thesis using c_realD [OF D(5) w(1)] w(2) d_o by simp
    qed
  qed
  show "c_short t src ?d visited"
    unfolding c_short_def
  proof (intro allI impI)
    fix w assume w: "w < ?n" "visited ! w"
    then have "w \<noteq> v" using nv by auto
    then have "?d ! w = dists ! w" by (rule d_o)
    then show "?d ! w \<noteq> INF_dist \<and> (\<forall>k. walk t src k w \<longrightarrow> ?d ! w \<le> k)"
      using c_shortD1 [OF D(6) w] c_shortD2 [OF D(6) w] by simp
  qed
  show "c_edge t ({u} \<times> set vs) ?d visited"
    unfolding c_edge_def
  proof (intro allI impI ballI)
    fix w x assume w: "w < ?n" "visited ! w" "x \<in> set (nbrs_of t w)" "(w, x) \<notin> {u} \<times> set vs"
    have wv: "w \<noteq> v" using w(2) nv by auto
    have dw: "?d ! w = dists ! w" using wv by (rule d_o)
    show "?d ! x \<le> ?d ! w + 1"
    proof (cases "(w, x) \<in> {u} \<times> set (v # vs)")
      case False
      have "dists ! x \<le> dists ! w + 1" using c_edgeD [OF D(7) w(1,2,3) False] .
      moreover have "?d ! x \<le> dists ! x"
        using d_v d_o lt by (cases "x = v") simp_all
      ultimately show ?thesis using dw by simp
    next
      case True
      then have "w = u" and "x = v" using w(4) by auto
      then show ?thesis using d_v dw by simp
    qed
  qed
  show "c_cnt t ?d visited"
    unfolding c_cnt_def
  proof (intro allI impI conjI)
    fix w assume w: "w < ?n" "visited ! w"
    then have "w \<noteq> v" using nv by auto
    then have "?d ! w = dists ! w" by (rule d_o)
    then show "?d ! w + unvisited_count visited < ?n" using c_cntD1 [OF D(8) w] by simp
  next
    fix w assume w: "w < ?n" "?d ! w \<noteq> INF_dist"
    show "?d ! w + unvisited_count visited \<le> ?n"
    proof (cases "w = v")
      case True
      have "dists ! u + unvisited_count visited < ?n" using c_cntD1 [OF D(8) un vu] .
      then show ?thesis using True d_v by simp
    next
      case False
      then show ?thesis using c_cntD2 [OF D(8) w(1)] w(2) d_o by simp
    qed
  qed
  show "c_prev t src ?d ?p visited"
    unfolding c_prev_def
  proof (intro allI impI conjI)
    fix w assume w: "w < ?n" "?p ! w \<noteq> UINT32_MAX"
    have "?p ! w < ?n \<and> visited ! (?p ! w) \<and> w \<in> set (nbrs_of t (?p ! w)) \<and>
        ?d ! w = ?d ! (?p ! w) + 1"
    proof (cases "w = v")
      case True
      then show ?thesis using p_v d_v d_o [of u] uv un vu e by simp
    next
      case False
      then have pw: "?p ! w = prev ! w" by (rule p_o)
      then have "prev ! w \<noteq> UINT32_MAX" using w(2) by simp
      note P = c_prevD1 [OF D(9) w(1) this]
      have "prev ! w \<noteq> v" using P nv by auto
      then have "?d ! (prev ! w) = dists ! (prev ! w)" by (rule d_o)
      then show ?thesis using P pw d_o [OF False] by simp
    qed
    then show "?p ! w < ?n" "visited ! (?p ! w)" "w \<in> set (nbrs_of t (?p ! w))"
      "?d ! w = ?d ! (?p ! w) + 1"
      by simp_all
  next
    fix w assume w: "w < ?n" "?p ! w = UINT32_MAX"
    have "w \<noteq> v"
    proof
      assume "w = v"
      then have "u = UINT32_MAX" using w(2) p_v by simp
      then show False using un nmax by simp
    qed
    then show "w = src \<or> ?d ! w = INF_dist"
      using c_prevD2 [OF D(9) w(1)] w(2) p_o d_o by simp
  qed
qed

text \<open>
  The relaxation loop over the neighbours of a visited node \<open>u\<close> returns normally and
  re-establishes the invariant without pending edges.
\<close>

lemma relax_inv:
  assumes range: "neighbors_in_range t" and nmax: "numSatellites t \<le> UINT32_MAX"
    and un: "u < numSatellites t" and vu: "visited ! u"
  shows "dj_inv t src ({u} \<times> set vs) dists prev visited pq \<Longrightarrow>
     set vs \<subseteq> set (nbrs_of t u) \<Longrightarrow>
     \<exists>dists' prev' pq'. relax u visited vs (dists, prev, pq) = Inr (dists', prev', pq') \<and>
        dj_inv t src {} dists' prev' visited pq'"
proof (induction vs arbitrary: dists prev pq)
  case Nil
  then show ?case by simp
next
  case (Cons v vs)
  let ?n = "numSatellites t"
  note inv = Cons.prems(1)
  note D = dj_invD [OF inv]
  have len: "length dists = ?n" "length prev = ?n" "length visited = ?n"
    using D(1) by (simp_all add: c_len_def)
  have e: "v \<in> set (nbrs_of t u)" and rest: "set vs \<subseteq> set (nbrs_of t u)"
    using Cons.prems(2) by simp_all
  have vn: "v < ?n" using range un e by (auto simp: neighbors_in_range_def)
  show ?case
  proof (cases "visited ! v")
    case True
    have "dj_inv t src ({u} \<times> set vs) dists prev visited pq"
      using dj_inv_relax_skip [OF inv un vu e vn] True by simp
    from Cons.IH [OF this rest] show ?thesis using True len vn by simp
  next
    case False
    note nw = relax_new_dist(2) [OF nmax inv un vu vn False]
    show ?thesis
    proof (cases "dists ! u + 1 < dists ! v")
      case True
      have "dj_inv t src ({u} \<times> set vs) (dists[v := dists ! u + 1]) (prev[v := u]) visited
          (pq_push (dists ! u + 1, v) pq)"
        using dj_inv_relax_update [OF nmax inv un vu e vn False True] .
      from Cons.IH [OF this rest] show ?thesis using True False len vn un nw by simp
    next
      case lt: False
      have "dj_inv t src ({u} \<times> set vs) dists prev visited pq"
        using dj_inv_relax_skip [OF inv un vu e vn] lt by simp
      from Cons.IH [OF this rest] show ?thesis using lt False len vn un nw by simp
    qed
  qed
qed

text \<open>
  The loop returns normally, and the invariant holds with an empty queue when it does.
\<close>

lemma dijkstra_loop_inv:
  assumes range: "neighbors_in_range t" and nmax: "numSatellites t \<le> UINT32_MAX"
  shows "dj_inv t src {} dists prev visited pq \<Longrightarrow>
     \<exists>dists' prev' visited'. dijkstra_loop t dists prev visited pq = Inr (dists', prev') \<and>
        dj_inv t src {} dists' prev' visited' []"
  using assms
proof (induction t dists prev visited pq rule: dijkstra_loop.induct)
  case (1 t dists prev visited pq)
  note inv = "1.prems"(1) and range = "1.prems"(2) and nmax = "1.prems"(3)
  let ?u = "snd (pq_top pq)"
  let ?vis = "visited[?u := True]"
  show ?case
  proof (cases "pq = []")
    case True
    then have "dijkstra_loop t dists prev visited pq = Inr (dists, prev)"
      by (subst dijkstra_loop.simps) simp
    then show ?thesis using inv True by blast
  next
    case ne: False
    have "pq_top pq \<in> set pq" using ne by (rule pq_top_in)
    then have "(fst (pq_top pq), ?u) \<in> set pq" by simp
    from c_pqD [OF dj_invD(3) [OF inv] this] have un: "?u < numSatellites t" by simp
    have lv: "length visited = numSatellites t"
      using dj_invD(1) [OF inv] by (simp add: c_len_def)
    have inb: "\<not> length visited \<le> ?u" using un lv by simp
    show ?thesis
    proof (cases "visited ! ?u")
      case True
      have step: "dijkstra_loop t dists prev visited pq =
          dijkstra_loop t dists prev visited (pq_pop pq)"
        using ne inb True by (subst dijkstra_loop.simps) simp
      have "dj_inv t src {} dists prev visited (pq_pop pq)"
        using inv ne True by (rule dj_inv_pop_visited)
      from "1.IH"(1) [OF ne inb True this range nmax] show ?thesis using step by simp
    next
      case nv: False
      from dj_inv_visit [OF range nmax inv ne nv]
      have inv1: "dj_inv t src ({?u} \<times> set (nbrs_of t ?u)) dists prev ?vis (pq_pop pq)"
        by simp
      have visu: "?vis ! ?u" using un lv by simp
      show ?thesis
      proof (cases "map_of (neighbors t) ?u")
        case None
        have step: "dijkstra_loop t dists prev visited pq =
            dijkstra_loop t dists prev ?vis (pq_pop pq)"
          using ne inb nv None by (subst dijkstra_loop.simps) simp
        have "nbrs_of t ?u = []" using None by (simp add: nbrs_of_def)
        then have "dj_inv t src {} dists prev ?vis (pq_pop pq)" using inv1 by simp
        from "1.IH"(2) [OF ne inb nv None this range nmax] show ?thesis using step by simp
      next
        case (Some ns)
        have ns: "nbrs_of t ?u = ns" using Some by (simp add: nbrs_of_def)
        have "dj_inv t src ({?u} \<times> set ns) dists prev ?vis (pq_pop pq)"
          using inv1 ns by simp
        from relax_inv [OF range nmax un visu this] ns
        obtain dists' prev' pq' where
          r: "relax ?u ?vis ns (dists, prev, pq_pop pq) = Inr (dists', prev', pq')"
          and inv2: "dj_inv t src {} dists' prev' ?vis pq'"
          by auto
        have step: "dijkstra_loop t dists prev visited pq = dijkstra_loop t dists' prev' ?vis pq'"
          using ne inb nv Some r by (subst dijkstra_loop.simps) simp
        from "1.IH"(3) [OF ne inb nv Some r refl refl inv2 range nmax]
        show ?thesis using step by simp
      qed
    qed
  qed
qed

lemma dijkstra_from_inv:
  assumes range: "neighbors_in_range t" and nmax: "numSatellites t \<le> UINT32_MAX"
    and src: "src < numSatellites t"
  shows "\<exists>dists prev visited. dijkstra_from t src = Inr (dists, prev) \<and>
     dj_inv t src {} dists prev visited []"
proof -
  from dijkstra_loop_inv [OF range nmax dj_inv_init [OF src]] show ?thesis
    using src by (simp add: dijkstra_from_def)
qed

text \<open>
  What the invariant says once the queue is empty: the finite distances are exactly
  those of the reachable nodes, and each is the length of a shortest walk.
\<close>

lemma dj_final_reachable:
  assumes range: "neighbors_in_range t" and nmax: "numSatellites t \<le> UINT32_MAX"
    and inv: "dj_inv t src {} dists prev visited []"
    and w: "walk t src k v"
  shows "v < numSatellites t \<and> visited ! v \<and> dists ! v \<noteq> INF_dist \<and> dists ! v \<le> k"
proof -
  note D = dj_invD [OF inv]
  have src: "src < numSatellites t" using D(1) by (simp add: c_len_def)
  have vn: "v < numSatellites t" using walk_in_range [OF range src w] .
  from first_unvisited [OF range nmax D(1) D(2) D(7) D(8) w]
  have "visited ! v \<and> dists ! v \<le> k"
  proof
    assume "visited ! v \<and> dists ! v \<le> k"
    then show ?thesis .
  next
    assume "\<exists>x < numSatellites t. \<not> visited ! x \<and> dists ! x \<noteq> INF_dist \<and> dists ! x \<le> k"
    then obtain x where "x < numSatellites t" "\<not> visited ! x" "dists ! x \<noteq> INF_dist" by blast
    from c_queuedD [OF D(4) this] show ?thesis by simp
  qed
  then show ?thesis using vn c_shortD1 [OF D(6) vn] by simp
qed

lemma dj_final_finite:
  assumes inv: "dj_inv t src {} dists prev visited []"
    and vn: "v < numSatellites t" and fin: "dists ! v \<noteq> INF_dist"
  shows "visited ! v \<and> walk t src (dists ! v) v"
proof -
  note D = dj_invD [OF inv]
  have "visited ! v"
  proof (rule ccontr)
    assume "\<not> visited ! v"
    from c_queuedD [OF D(4) vn this fin] show False by simp
  qed
  then show ?thesis using c_realD [OF D(5) vn fin] by simp
qed

subsection \<open>The next hops read off the predecessor vector\<close>

text \<open>
  The walk back along \<open>prev\<close> from a reachable node other than the source ends, at a
  neighbour of the source from which the node is one hop closer.
\<close>

lemma trace_back_spec:
  assumes inv: "dj_inv t src {} dists prev visited []"
  shows "c < numSatellites t \<Longrightarrow> c \<noteq> src \<Longrightarrow> dists ! c \<noteq> INF_dist \<Longrightarrow>
     \<exists>h j. trace_back prev src c = Some (Inr h) \<and> h \<in> set (nbrs_of t src) \<and>
        h < numSatellites t \<and> walk t h j c \<and> Suc j = dists ! c"
proof (induction "dists ! c" arbitrary: c rule: less_induct)
  case less
  note D = dj_invD [OF inv]
  have lp: "length prev = numSatellites t" and d0: "dists ! src = 0"
    using D(1) D(2) by (simp_all add: c_len_def c_src_def)
  have pm: "prev ! c \<noteq> UINT32_MAX"
    using c_prevD2 [OF D(9) less.prems(1)] less.prems(2,3) by blast
  note P = c_prevD1 [OF D(9) less.prems(1) pm]
  have inb: "\<not> length prev \<le> c" using lp less.prems(1) by simp
  show ?case
  proof (cases "prev ! c = src")
    case True
    have "trace_back prev src c = Some (Inr c)"
      using inb True by (subst trace_back.simps) simp
    moreover have "c \<in> set (nbrs_of t src)" using P True by simp
    moreover have "walk t c 0 c" by simp
    moreover have "Suc 0 = dists ! c" using P True d0 by simp
    ultimately show ?thesis using less.prems(1) by blast
  next
    case False
    let ?p = "prev ! c"
    have step: "trace_back prev src c = trace_back prev src ?p"
      using inb False pm by (subst trace_back.simps) simp
    have pn: "?p < numSatellites t" and pv: "visited ! ?p" and e: "c \<in> set (nbrs_of t ?p)"
      and dc: "dists ! c = dists ! ?p + 1"
      using P by simp_all
    have pfin: "dists ! ?p \<noteq> INF_dist" using c_shortD1 [OF D(6) pn pv] .
    have "dists ! ?p < dists ! c" using dc by simp
    from less.hyps [OF this pn False pfin] obtain h j where
      h: "trace_back prev src ?p = Some (Inr h)" "h \<in> set (nbrs_of t src)"
        "h < numSatellites t" "walk t h j ?p" "Suc j = dists ! ?p"
      by blast
    have "walk t h (Suc j) c" using walk_snoc [OF h(4) e] .
    moreover have "Suc (Suc j) = dists ! c" using h(5) dc by simp
    ultimately show ?thesis using h(1,2,3) step by (metis (no_types))
  qed
qed

subsection \<open>The routing table\<close>

lemma GetNextHop_SetNextHop:
  "GetNextHop (SetNextHop routes src dst nextHop) s d =
     (if s = src \<and> d = dst then nextHop else GetNextHop routes s d)"
  by (auto simp: GetNextHop_def SetNextHop_def split: option.splits)

lemma GetNextHop_empty: "GetNextHop empty_routes s d = UINT32_MAX"
  by (simp add: GetNextHop_def empty_routes_def)

text \<open>
  A good next hop from \<open>src\<close> towards \<open>dst\<close>: a neighbour of \<open>src\<close> from which \<open>dst\<close> is
  reached by a walk that is one hop shorter than every walk from \<open>src\<close>.
\<close>

definition next_hop_ok :: "IslTopology \<Rightarrow> nat \<Rightarrow> nat \<Rightarrow> nat \<Rightarrow> bool" where
  "next_hop_ok t src dst h \<longleftrightarrow>
     h \<in> set (nbrs_of t src) \<and> h < numSatellites t \<and>
     (\<exists>j. walk t h j dst \<and> (\<forall>k. walk t src k dst \<longrightarrow> Suc j \<le> k))"

text \<open>
  The row of \<open>src\<close> is right: a good next hop for every other node that is reachable,
  no entry for \<open>src\<close> itself and for the nodes that are not reachable.
\<close>

definition row_ok :: "IslTopology \<Rightarrow> RoutingTables \<Rightarrow> nat \<Rightarrow> bool" where
  "row_ok t routes src \<longleftrightarrow>
     (\<forall>dst. (src \<noteq> dst \<and> (\<exists>k. walk t src k dst)
                \<longrightarrow> next_hop_ok t src dst (GetNextHop routes src dst)) \<and>
            (src = dst \<or> \<not> (\<exists>k. walk t src k dst)
                \<longrightarrow> GetNextHop routes src dst = UINT32_MAX))"

lemma extract_next_hops_spec:
  assumes inv: "dj_inv t src {} dists prev visited []"
  shows "set dsts \<subseteq> {..<numSatellites t} \<Longrightarrow>
     \<exists>routes'. extract_next_hops src dists prev dsts routes = Some (Inr routes') \<and>
       (\<forall>s d. s \<noteq> src \<or> d \<notin> set dsts \<or> d = src \<or> dists ! d = INF_dist
          \<longrightarrow> GetNextHop routes' s d = GetNextHop routes s d) \<and>
       (\<forall>d \<in> set dsts. d \<noteq> src \<longrightarrow> dists ! d \<noteq> INF_dist \<longrightarrow>
          (\<exists>j. GetNextHop routes' src d \<in> set (nbrs_of t src) \<and>
               GetNextHop routes' src d < numSatellites t \<and>
               walk t (GetNextHop routes' src d) j d \<and> Suc j = dists ! d))"
proof (induction dsts arbitrary: routes)
  case Nil
  then show ?case by simp
next
  case (Cons dst dsts)
  note D = dj_invD [OF inv]
  have ld: "length dists = numSatellites t" using D(1) by (simp add: c_len_def)
  have dn: "dst < numSatellites t" and rest: "set dsts \<subseteq> {..<numSatellites t}"
    using Cons.prems by simp_all
  have inb: "\<not> length dists \<le> dst" using ld dn by simp
  show ?case
  proof (cases "src = dst \<or> dists ! dst = INF_dist")
    case True
    have step: "extract_next_hops src dists prev (dst # dsts) routes =
        extract_next_hops src dists prev dsts routes"
      using True inb by auto
    from Cons.IH [OF rest, of routes] obtain routes' where
      r: "extract_next_hops src dists prev dsts routes = Some (Inr routes')"
      and same: "\<forall>s d. s \<noteq> src \<or> d \<notin> set dsts \<or> d = src \<or> dists ! d = INF_dist
          \<longrightarrow> GetNextHop routes' s d = GetNextHop routes s d"
      and good: "\<forall>d \<in> set dsts. d \<noteq> src \<longrightarrow> dists ! d \<noteq> INF_dist \<longrightarrow>
          (\<exists>j. GetNextHop routes' src d \<in> set (nbrs_of t src) \<and>
               GetNextHop routes' src d < numSatellites t \<and>
               walk t (GetNextHop routes' src d) j d \<and> Suc j = dists ! d)"
      by blast
    have "\<forall>s d. s \<noteq> src \<or> d \<notin> set (dst # dsts) \<or> d = src \<or> dists ! d = INF_dist
          \<longrightarrow> GetNextHop routes' s d = GetNextHop routes s d"
      using same by auto
    moreover have "\<forall>d \<in> set (dst # dsts). d \<noteq> src \<longrightarrow> dists ! d \<noteq> INF_dist \<longrightarrow>
          (\<exists>j. GetNextHop routes' src d \<in> set (nbrs_of t src) \<and>
               GetNextHop routes' src d < numSatellites t \<and>
               walk t (GetNextHop routes' src d) j d \<and> Suc j = dists ! d)"
      using good True by auto
    ultimately show ?thesis using r step by simp
  next
    case False
    then have ne: "dst \<noteq> src" and fin: "dists ! dst \<noteq> INF_dist" by auto
    from trace_back_spec [OF inv dn ne fin] obtain h j where
      h: "trace_back prev src dst = Some (Inr h)" "h \<in> set (nbrs_of t src)"
        "h < numSatellites t" "walk t h j dst" "Suc j = dists ! dst"
      by blast
    let ?r1 = "SetNextHop routes src dst h"
    have step: "extract_next_hops src dists prev (dst # dsts) routes =
        extract_next_hops src dists prev dsts ?r1"
      using False inb h(1) by auto
    from Cons.IH [OF rest, of ?r1] obtain routes' where
      r: "extract_next_hops src dists prev dsts ?r1 = Some (Inr routes')"
      and same: "\<forall>s d. s \<noteq> src \<or> d \<notin> set dsts \<or> d = src \<or> dists ! d = INF_dist
          \<longrightarrow> GetNextHop routes' s d = GetNextHop ?r1 s d"
      and good: "\<forall>d \<in> set dsts. d \<noteq> src \<longrightarrow> dists ! d \<noteq> INF_dist \<longrightarrow>
          (\<exists>j. GetNextHop routes' src d \<in> set (nbrs_of t src) \<and>
               GetNextHop routes' src d < numSatellites t \<and>
               walk t (GetNextHop routes' src d) j d \<and> Suc j = dists ! d)"
      by blast
    have same': "\<forall>s d. s \<noteq> src \<or> d \<notin> set (dst # dsts) \<or> d = src \<or> dists ! d = INF_dist
          \<longrightarrow> GetNextHop routes' s d = GetNextHop routes s d"
    proof (intro allI impI)
      fix s d assume c: "s \<noteq> src \<or> d \<notin> set (dst # dsts) \<or> d = src \<or> dists ! d = INF_dist"
      then have "\<not> (s = src \<and> d = dst)" using ne fin by auto
      then have "GetNextHop ?r1 s d = GetNextHop routes s d"
        by (auto simp: GetNextHop_SetNextHop)
      moreover have "GetNextHop routes' s d = GetNextHop ?r1 s d"
        using same c by auto
      ultimately show "GetNextHop routes' s d = GetNextHop routes s d" by simp
    qed
    have good': "\<forall>d \<in> set (dst # dsts). d \<noteq> src \<longrightarrow> dists ! d \<noteq> INF_dist \<longrightarrow>
          (\<exists>j. GetNextHop routes' src d \<in> set (nbrs_of t src) \<and>
               GetNextHop routes' src d < numSatellites t \<and>
               walk t (GetNextHop routes' src d) j d \<and> Suc j = dists ! d)"
    proof (intro ballI impI)
      fix d assume d: "d \<in> set (dst # dsts)" "d \<noteq> src" "dists ! d \<noteq> INF_dist"
      show "\<exists>j. GetNextHop routes' src d \<in> set (nbrs_of t src) \<and>
               GetNextHop routes' src d < numSatellites t \<and>
               walk t (GetNextHop routes' src d) j d \<and> Suc j = dists ! d"
      proof (cases "d \<in> set dsts")
        case True
        then show ?thesis using good d(2,3) by blast
      next
        case False
        then have dd: "d = dst" using d(1) by simp
        have "GetNextHop routes' src d = GetNextHop ?r1 src d" using same False by blast
        also have "\<dots> = h" using dd by (simp add: GetNextHop_SetNextHop)
        finally show ?thesis using h dd by blast
      qed
    qed
    show ?thesis using r step same' good' by simp
  qed
qed

text \<open>One round of the outer loop fills the row of its source and leaves the others.\<close>

lemma row_after_round:
  assumes range: "neighbors_in_range t" and nmax: "numSatellites t \<le> UINT32_MAX"
    and src: "src < numSatellites t"
    and empty: "\<forall>d. GetNextHop routes src d = UINT32_MAX"
  shows "\<exists>dists prev routes'. dijkstra_from t src = Inr (dists, prev) \<and>
     extract_next_hops src dists prev [0..<numSatellites t] routes = Some (Inr routes') \<and>
     row_ok t routes' src \<and>
     (\<forall>s d. s \<noteq> src \<longrightarrow> GetNextHop routes' s d = GetNextHop routes s d)"
proof -
  from dijkstra_from_inv [OF range nmax src] obtain dists prev visited where
    dj: "dijkstra_from t src = Inr (dists, prev)" and inv: "dj_inv t src {} dists prev visited []"
    by blast
  have "set [0..<numSatellites t] \<subseteq> {..<numSatellites t}" by auto
  from extract_next_hops_spec [OF inv this, of routes] obtain routes' where
    r: "extract_next_hops src dists prev [0..<numSatellites t] routes = Some (Inr routes')"
    and same: "\<forall>s d. s \<noteq> src \<or> d \<notin> set [0..<numSatellites t] \<or> d = src \<or> dists ! d = INF_dist
          \<longrightarrow> GetNextHop routes' s d = GetNextHop routes s d"
    and good: "\<forall>d \<in> set [0..<numSatellites t]. d \<noteq> src \<longrightarrow> dists ! d \<noteq> INF_dist \<longrightarrow>
          (\<exists>j. GetNextHop routes' src d \<in> set (nbrs_of t src) \<and>
               GetNextHop routes' src d < numSatellites t \<and>
               walk t (GetNextHop routes' src d) j d \<and> Suc j = dists ! d)"
    by blast
  have row: "row_ok t routes' src"
    unfolding row_ok_def
  proof (intro allI conjI impI)
    fix dst assume a: "src \<noteq> dst \<and> (\<exists>k. walk t src k dst)"
    then obtain k where k: "walk t src k dst" by blast
    from dj_final_reachable [OF range nmax inv k]
    have dn: "dst < numSatellites t" and fin: "dists ! dst \<noteq> INF_dist" by simp_all
    have mem: "dst \<in> set [0..<numSatellites t]" using dn by simp
    have ne: "dst \<noteq> src" using a by auto
    from good [rule_format, OF mem ne fin] obtain j where
      j: "GetNextHop routes' src dst \<in> set (nbrs_of t src)"
        "GetNextHop routes' src dst < numSatellites t"
        "walk t (GetNextHop routes' src dst) j dst" "Suc j = dists ! dst"
      by blast
    have "\<forall>k. walk t src k dst \<longrightarrow> Suc j \<le> k"
      using dj_final_reachable [OF range nmax inv] j(4) by simp
    then show "next_hop_ok t src dst (GetNextHop routes' src dst)"
      unfolding next_hop_ok_def using j by blast
  next
    fix dst assume a: "src = dst \<or> \<not> (\<exists>k. walk t src k dst)"
    have "dst < numSatellites t \<Longrightarrow> dists ! dst \<noteq> INF_dist \<Longrightarrow> dst = src"
    proof -
      assume "dst < numSatellites t" and "dists ! dst \<noteq> INF_dist"
      from dj_final_finite [OF inv this] have "walk t src (dists ! dst) dst" by simp
      with a show "dst = src" by blast
    qed
    then have "src \<noteq> src \<or> dst \<notin> set [0..<numSatellites t] \<or> dst = src \<or> dists ! dst = INF_dist"
      by auto
    with same have "GetNextHop routes' src dst = GetNextHop routes src dst" by blast
    then show "GetNextHop routes' src dst = UINT32_MAX" using empty by simp
  qed
  have "\<forall>s d. s \<noteq> src \<longrightarrow> GetNextHop routes' s d = GetNextHop routes s d"
    using same by blast
  with dj r row show ?thesis by blast
qed

lemma row_ok_cong:
  "\<forall>d. GetNextHop routes' s d = GetNextHop routes s d \<Longrightarrow> row_ok t routes s \<Longrightarrow> row_ok t routes' s"
  by (simp add: row_ok_def)

lemma routes_from_sources_spec:
  assumes range: "neighbors_in_range t" and nmax: "numSatellites t \<le> UINT32_MAX"
  shows "set srcs \<subseteq> {..<numSatellites t} \<Longrightarrow> distinct srcs \<Longrightarrow>
     \<forall>s \<in> set srcs. \<forall>d. GetNextHop routes s d = UINT32_MAX \<Longrightarrow>
     \<exists>routes'. routes_from_sources t srcs routes = Some (Inr routes') \<and>
       (\<forall>s \<in> set srcs. row_ok t routes' s) \<and>
       (\<forall>s d. s \<notin> set srcs \<longrightarrow> GetNextHop routes' s d = GetNextHop routes s d)"
proof (induction srcs arbitrary: routes)
  case Nil
  then show ?case by simp
next
  case (Cons src srcs)
  have src: "src < numSatellites t" and rest: "set srcs \<subseteq> {..<numSatellites t}"
    and fresh: "src \<notin> set srcs" and dist: "distinct srcs"
    using Cons.prems by simp_all
  have empty: "\<forall>d. GetNextHop routes src d = UINT32_MAX" using Cons.prems(3) by simp
  from row_after_round [OF range nmax src empty] obtain dists prev r1 where
    dj: "dijkstra_from t src = Inr (dists, prev)"
    and ex: "extract_next_hops src dists prev [0..<numSatellites t] routes = Some (Inr r1)"
    and row: "row_ok t r1 src"
    and same: "\<forall>s d. s \<noteq> src \<longrightarrow> GetNextHop r1 s d = GetNextHop routes s d"
    by blast
  have e1: "\<forall>s \<in> set srcs. \<forall>d. GetNextHop r1 s d = UINT32_MAX"
    using same Cons.prems(3) fresh by auto
  from Cons.IH [OF rest dist e1] obtain routes' where
    r: "routes_from_sources t srcs r1 = Some (Inr routes')"
    and rows: "\<forall>s \<in> set srcs. row_ok t routes' s"
    and same2: "\<forall>s d. s \<notin> set srcs \<longrightarrow> GetNextHop routes' s d = GetNextHop r1 s d"
    by blast
  have "row_ok t routes' src"
    using row_ok_cong [OF _ row] same2 fresh by blast
  moreover have "\<forall>s d. s \<notin> set (src # srcs) \<longrightarrow> GetNextHop routes' s d = GetNextHop routes s d"
    using same same2 by auto
  moreover have "routes_from_sources t (src # srcs) routes = Some (Inr routes')"
    using dj ex r by simp
  ultimately show ?case using rows by auto
qed

text \<open>
  The table of \<open>ComputeStaticRoutes\<close>: the call returns normally when the neighbour ids
  are in range, every row of a node is right, and there are no other rows.
\<close>

lemma ComputeStaticRoutes_spec:
  assumes range: "neighbors_in_range t" and nmax: "numSatellites t \<le> UINT32_MAX"
  shows "\<exists>routes. ComputeStaticRoutes t = Some (Inr routes) \<and>
     (\<forall>src < numSatellites t. row_ok t routes src) \<and>
     (\<forall>src d. numSatellites t \<le> src \<longrightarrow> GetNextHop routes src d = UINT32_MAX)"
proof -
  have "set [0..<numSatellites t] \<subseteq> {..<numSatellites t}" by auto
  moreover have "distinct [0..<numSatellites t]" by simp
  moreover have "\<forall>s \<in> set [0..<numSatellites t]. \<forall>d. GetNextHop empty_routes s d = UINT32_MAX"
    by (simp add: GetNextHop_empty)
  ultimately obtain routes where
    r: "routes_from_sources t [0..<numSatellites t] empty_routes = Some (Inr routes)"
    and rows: "\<forall>s \<in> set [0..<numSatellites t]. row_ok t routes s"
    and same: "\<forall>s d. s \<notin> set [0..<numSatellites t] \<longrightarrow>
        GetNextHop routes s d = GetNextHop empty_routes s d"
    using routes_from_sources_spec [OF range nmax, of "[0..<numSatellites t]" empty_routes]
    by blast
  have "\<forall>src < numSatellites t. row_ok t routes src" using rows by simp
  moreover have "\<forall>src d. numSatellites t \<le> src \<longrightarrow> GetNextHop routes src d = UINT32_MAX"
    using same by (simp add: GetNextHop_empty)
  ultimately show ?thesis using r by (auto simp: ComputeStaticRoutes_def)
qed

subsection \<open>A normal return means that the neighbour ids are in range\<close>

lemma relax_ok_range:
  "relax u visited vs s = Inr s' \<Longrightarrow> \<forall>v \<in> set vs. v < length visited"
proof (induction vs arbitrary: s)
  case Nil
  then show ?case by simp
next
  case (Cons v vs)
  obtain dists prev pq where s: "s = (dists, prev, pq)" by (cases s)
  have vl: "v < length visited"
    using Cons.prems unfolding s by (auto split: if_splits)
  have "\<exists>s1. relax u visited vs s1 = Inr s'"
    using Cons.prems unfolding s by (auto split: if_splits)
  then obtain s1 where "relax u visited vs s1 = Inr s'" by blast
  from Cons.IH [OF this] vl show ?case by simp
qed

lemma dijkstra_from_ok_range:
  assumes ok: "dijkstra_from t src = Inr r" and src: "src < numSatellites t"
  shows "\<forall>v \<in> set (nbrs_of t src). v < numSatellites t"
proof (cases "map_of (neighbors t) src")
  case None
  then show ?thesis by (simp add: nbrs_of_def)
next
  case (Some ns)
  let ?n = "numSatellites t"
  let ?vis = "(replicate ?n False)[src := True]"
  have top: "pq_top [(0, src)] = (0, src)" and pop: "pq_pop [(0, src)] = []"
    by (simp_all add: pq_top_def pq_pop_def)
  let ?s0 = "((replicate ?n INF_dist)[src := 0], replicate ?n UINT32_MAX, [])"
  have inb: "\<not> length (replicate ?n False) \<le> src" and nv: "\<not> replicate ?n False ! src"
    using src by simp_all
  show ?thesis
  proof (cases "relax src ?vis ns ?s0")
    case (Inl e)
    have "dijkstra_loop t ((replicate ?n INF_dist)[src := 0]) (replicate ?n UINT32_MAX)
        (replicate ?n False) [(0, src)] = Inl e"
      using inb nv Some Inl by (subst dijkstra_loop.simps) (simp add: top pop)
    then have "dijkstra_from t src = Inl e"
      using src by (simp add: dijkstra_from_def pq_push_def)
    with ok show ?thesis by simp
  next
    case (Inr s')
    from relax_ok_range [OF this] show ?thesis using Some by (simp add: nbrs_of_def)
  qed
qed

lemma routes_from_sources_ok:
  "routes_from_sources t srcs routes = Some (Inr routes') \<Longrightarrow>
     \<forall>s \<in> set srcs. \<exists>r. dijkstra_from t s = Inr r"
proof (induction srcs arbitrary: routes)
  case Nil
  then show ?case by simp
next
  case (Cons src srcs)
  from Cons.prems obtain r where r: "dijkstra_from t src = Inr r"
    by (auto split: sum.splits)
  from Cons.prems r obtain r1 where "routes_from_sources t srcs r1 = Some (Inr routes')"
    by (auto split: sum.splits option.splits prod.splits)
  from Cons.IH [OF this] r show ?case by auto
qed

lemma ComputeStaticRoutes_ok_range:
  assumes "ComputeStaticRoutes t = Some (Inr routes)"
  shows "neighbors_in_range t"
  unfolding neighbors_in_range_def
proof (intro allI impI)
  fix u assume u: "u < numSatellites t"
  have "u \<in> set [0..<numSatellites t]" using u by simp
  with routes_from_sources_ok [OF assms [unfolded ComputeStaticRoutes_def]]
  obtain r where "dijkstra_from t u = Inr r" by blast
  from dijkstra_from_ok_range [OF this u]
  show "\<forall>v \<in> set (nbrs_of t u). v < numSatellites t" .
qed

lemma ComputeStaticRoutes_rows:
  assumes ok: "ComputeStaticRoutes t = Some (Inr routes)"
    and nmax: "numSatellites t < 2 ^ 32"
  shows "neighbors_in_range t" and "\<forall>src < numSatellites t. row_ok t routes src"
    and "\<forall>src d. numSatellites t \<le> src \<longrightarrow> GetNextHop routes src d = UINT32_MAX"
proof -
  show range: "neighbors_in_range t" using ok by (rule ComputeStaticRoutes_ok_range)
  have "numSatellites t \<le> UINT32_MAX" using nmax by (simp add: UINT32_MAX_def)
  from ComputeStaticRoutes_spec [OF range this] ok
  show "\<forall>src < numSatellites t. row_ok t routes src"
    and "\<forall>src d. numSatellites t \<le> src \<longrightarrow> GetNextHop routes src d = UINT32_MAX"
    by auto
qed

subsection \<open>Following the next hops\<close>

text \<open>\<open>hop_dist t a b d\<close>: the least number of hops from \<open>a\<close> to \<open>b\<close> is \<open>d\<close>.\<close>

definition hop_dist :: "IslTopology \<Rightarrow> nat \<Rightarrow> nat \<Rightarrow> nat \<Rightarrow> bool" where
  "hop_dist t a b d \<longleftrightarrow> walk t a d b \<and> (\<forall>j. walk t a j b \<longrightarrow> d \<le> j)"

text \<open>\<open>D\<close> bounds the diameter: no reachable pair of nodes is more than \<open>D\<close> hops apart.\<close>

definition diameter_bound :: "IslTopology \<Rightarrow> nat \<Rightarrow> bool" where
  "diameter_bound t D \<longleftrightarrow>
     (\<forall>a < numSatellites t. \<forall>b j. walk t a j b \<longrightarrow> (\<exists>i \<le> D. walk t a i b))"

lemma hop_dist_exists: "walk t a k b \<Longrightarrow> \<exists>d. hop_dist t a b d"
proof -
  assume w: "walk t a k b"
  let ?d = "LEAST j. walk t a j b"
  have "walk t a ?d b" using w by (rule LeastI)
  moreover have "\<forall>j. walk t a j b \<longrightarrow> ?d \<le> j" by (simp add: Least_le)
  ultimately show ?thesis unfolding hop_dist_def by blast
qed

text \<open>One step along the table from a node at distance \<open>Suc d\<close>.\<close>

lemma next_hop_step:
  assumes row: "row_ok t routes a" and hd: "hop_dist t a dst (Suc d)"
  shows "a \<noteq> dst" and "GetNextHop routes a dst \<in> set (nbrs_of t a)"
    and "GetNextHop routes a dst < numSatellites t"
    and "hop_dist t (GetNextHop routes a dst) dst d"
proof -
  let ?h = "GetNextHop routes a dst"
  have w: "walk t a (Suc d) dst" and least: "\<And>j. walk t a j dst \<Longrightarrow> Suc d \<le> j"
    using hd by (simp_all add: hop_dist_def)
  show ne: "a \<noteq> dst"
  proof
    assume "a = dst"
    then have "walk t a 0 dst" by simp
    from least [OF this] show False by simp
  qed
  have "next_hop_ok t a dst ?h"
    using row ne w unfolding row_ok_def by blast
  then obtain j where h: "?h \<in> set (nbrs_of t a)" "?h < numSatellites t"
    and wj: "walk t ?h j dst" and lj: "\<forall>k. walk t a k dst \<longrightarrow> Suc j \<le> k"
    unfolding next_hop_ok_def by blast
  show "?h \<in> set (nbrs_of t a)" "?h < numSatellites t" using h by simp_all
  have "walk t a (Suc j) dst" using h(1) wj by auto
  from least [OF this] lj w have jd: "j = d" by fastforce
  have "\<forall>i. walk t ?h i dst \<longrightarrow> d \<le> i"
  proof (intro allI impI)
    fix i assume "walk t ?h i dst"
    then have "walk t a (Suc i) dst" using h(1) by auto
    from least [OF this] show "d \<le> i" by simp
  qed
  then show "hop_dist t ?h dst d" using wj jd by (simp add: hop_dist_def)
qed

lemma hop_chain:
  assumes rows: "\<forall>s < numSatellites t. row_ok t routes s"
  shows "hop_dist t a dst d \<Longrightarrow> a < numSatellites t \<Longrightarrow>
     hop_walk routes dst a d = dst \<and>
     (\<forall>i < d. hop_walk routes dst a i \<noteq> dst \<and>
        hop_walk routes dst a (Suc i) \<in> set (nbrs_of t (hop_walk routes dst a i)))"
proof (induction d arbitrary: a)
  case 0
  then show ?case by (simp add: hop_dist_def)
next
  case (Suc d)
  let ?h = "GetNextHop routes a dst"
  have row: "row_ok t routes a" using rows Suc.prems(2) by simp
  note S = next_hop_step [OF row Suc.prems(1)]
  from Suc.IH [OF S(4) S(3)] have
    end_h: "hop_walk routes dst ?h d = dst"
    and steps_h: "\<forall>i < d. hop_walk routes dst ?h i \<noteq> dst \<and>
        hop_walk routes dst ?h (Suc i) \<in> set (nbrs_of t (hop_walk routes dst ?h i))"
    by simp_all
  have "\<forall>i < Suc d. hop_walk routes dst a i \<noteq> dst \<and>
        hop_walk routes dst a (Suc i) \<in> set (nbrs_of t (hop_walk routes dst a i))"
  proof (intro allI impI)
    fix i assume i: "i < Suc d"
    show "hop_walk routes dst a i \<noteq> dst \<and>
        hop_walk routes dst a (Suc i) \<in> set (nbrs_of t (hop_walk routes dst a i))"
    proof (cases i)
      case 0
      then show ?thesis using S(1,2) by simp
    next
      case (Suc i')
      then have "i' < d" using i by simp
      then show ?thesis using steps_h Suc by simp
    qed
  qed
  then show ?case using end_h by simp
qed

text \<open>
  The loop of \<open>GetHopCount\<close> counts the hops up to the destination when the count stays
  within 100, and gives up otherwise.
\<close>

lemma hop_loop_dist:
  assumes rows: "\<forall>s < numSatellites t. row_ok t routes s"
    and nmax: "numSatellites t \<le> UINT32_MAX"
  shows "hop_dist t a dst d \<Longrightarrow> a < numSatellites t \<Longrightarrow> hops + d \<le> 100 \<Longrightarrow>
     \<forall>x \<in> visited. \<not> (\<exists>j \<le> d. walk t x j dst) \<Longrightarrow>
     hop_loop routes dst a visited hops = hops + d"
proof (induction d arbitrary: a visited hops)
  case 0
  then have "a = dst" by (simp add: hop_dist_def)
  then show ?case by (subst hop_loop.simps) simp
next
  case (Suc d)
  let ?h = "GetNextHop routes a dst"
  have row: "row_ok t routes a" using rows Suc.prems(2) by simp
  note S = next_hop_step [OF row Suc.prems(1)]
  have wa: "walk t a (Suc d) dst" and least: "\<And>j. walk t a j dst \<Longrightarrow> Suc d \<le> j"
    using Suc.prems(1) by (simp_all add: hop_dist_def)
  have fresh: "a \<notin> visited" using Suc.prems(4) wa by blast
  have hm: "?h \<noteq> UINT32_MAX" using S(3) nmax by simp
  have cap: "\<not> 100 < hops + 1" using Suc.prems(3) by simp
  have step: "hop_loop routes dst a visited hops =
      hop_loop routes dst ?h (insert a visited) (hops + 1)"
    using S(1) fresh hm cap by (subst hop_loop.simps) simp
  have vis': "\<forall>x \<in> insert a visited. \<not> (\<exists>j \<le> d. walk t x j dst)"
  proof
    fix x assume x: "x \<in> insert a visited"
    show "\<not> (\<exists>j \<le> d. walk t x j dst)"
    proof (cases "x = a")
      case True
      then show ?thesis using least by fastforce
    next
      case False
      then have "x \<in> visited" using x by simp
      then have "\<not> (\<exists>j \<le> Suc d. walk t x j dst)" using Suc.prems(4) by blast
      then show ?thesis by (meson le_SucI)
    qed
  qed
  have "hops + 1 + d \<le> 100" using Suc.prems(3) by simp
  from Suc.IH [OF S(4) S(3) this vis'] step show ?case by simp
qed

lemma hop_loop_far:
  assumes rows: "\<forall>s < numSatellites t. row_ok t routes s"
  shows "hop_dist t a dst d \<Longrightarrow> a < numSatellites t \<Longrightarrow> hops \<le> 100 \<Longrightarrow> 100 < hops + d \<Longrightarrow>
     hop_loop routes dst a visited hops = UINT32_MAX"
proof (induction d arbitrary: a visited hops)
  case 0
  then show ?case by simp
next
  case (Suc d)
  let ?h = "GetNextHop routes a dst"
  have row: "row_ok t routes a" using rows Suc.prems(2) by simp
  note S = next_hop_step [OF row Suc.prems(1)]
  show ?case
  proof (cases "a \<in> visited \<or> ?h = UINT32_MAX \<or> 100 < hops + 1")
    case True
    then show ?thesis using S(1) by (subst hop_loop.simps) auto
  next
    case False
    then have step: "hop_loop routes dst a visited hops =
        hop_loop routes dst ?h (insert a visited) (hops + 1)"
      using S(1) by (subst hop_loop.simps) simp
    have "hops + 1 \<le> 100" and "100 < hops + 1 + d" using False Suc.prems(4) by simp_all
    from Suc.IH [OF S(4) S(3) this] step show ?thesis by simp
  qed
qed

section \<open>Claims on the routing table\<close>

subsection \<open>No self-routes\<close>

lemma extract_next_hops_self:
  "extract_next_hops src dists prev dsts routes = Some (Inr routes') \<Longrightarrow>
     GetNextHop routes' x x = GetNextHop routes x x"
proof (induction dsts arbitrary: routes)
  case Nil
  then show ?case by simp
next
  case (Cons dst dsts)
  show ?case
  proof (cases "src = dst \<or> dists ! dst = INF_dist")
    case True
    then have "extract_next_hops src dists prev dsts routes = Some (Inr routes')"
      using Cons.prems by (auto split: if_splits)
    from Cons.IH [OF this] show ?thesis .
  next
    case False
    from Cons.prems False obtain h where
      r: "extract_next_hops src dists prev dsts (SetNextHop routes src dst h) = Some (Inr routes')"
      by (auto split: if_splits option.splits sum.splits)
    have "GetNextHop (SetNextHop routes src dst h) x x = GetNextHop routes x x"
      using False by (auto simp: GetNextHop_SetNextHop)
    with Cons.IH [OF r] show ?thesis by simp
  qed
qed

lemma routes_from_sources_self:
  "routes_from_sources t srcs routes = Some (Inr routes') \<Longrightarrow>
     GetNextHop routes' x x = GetNextHop routes x x"
proof (induction srcs arbitrary: routes)
  case Nil
  then show ?case by simp
next
  case (Cons src srcs)
  from Cons.prems obtain dists prev r1 where
    e: "extract_next_hops src dists prev [0..<numSatellites t] routes = Some (Inr r1)"
    and r: "routes_from_sources t srcs r1 = Some (Inr routes')"
    by (auto split: sum.splits option.splits prod.splits)
  from Cons.IH [OF r] extract_next_hops_self [OF e] show ?case by simp
qed

text \<open>
  Claim C8. After \<open>ComputeStaticRoutes\<close> has returned, on any topology, the table holds
  no self-route: \<open>GetNextHop(x, x)\<close> is the sentinel \<open>UINT32_MAX\<close> for every \<open>x\<close>.
\<close>

theorem C8_no_self_routes:
  "ComputeStaticRoutes t = Some (Inr routes) \<Longrightarrow> GetNextHop routes x x = UINT32_MAX"
proof -
  assume "ComputeStaticRoutes t = Some (Inr routes)"
  then have "GetNextHop routes x x = GetNextHop empty_routes x x"
    unfolding ComputeStaticRoutes_def by (rule routes_from_sources_self)
  then show ?thesis by (simp add: GetNextHop_empty)
qed

subsection \<open>Neighbour ids in range\<close>

text \<open>Every neighbour id that appears in any neighbour vector is a node id.\<close>

definition neighbor_ids_in_range :: "IslTopology \<Rightarrow> bool" where
  "neighbor_ids_in_range t =
     (\<forall>(u, ns) \<in> set (neighbors t). \<forall>v \<in> set ns. v < numSatellites t)"

lemma neighbor_ids_in_range_nbrs:
  "neighbor_ids_in_range t \<Longrightarrow> neighbors_in_range t"
  unfolding neighbors_in_range_def
proof (intro allI impI ballI)
  fix u v assume r: "neighbor_ids_in_range t" and v: "v \<in> set (nbrs_of t u)"
  then obtain ns where ns: "map_of (neighbors t) u = Some ns" "v \<in> set ns"
    by (cases "map_of (neighbors t) u") (auto simp: nbrs_of_def)
  then have "(u, ns) \<in> set (neighbors t)" by (simp add: map_of_SomeD)
  with r ns(2) show "v < numSatellites t"
    unfolding neighbor_ids_in_range_def by blast
qed

lemma mesh24_ids: "\<forall>(u, ns) \<in> set mesh24. \<forall>v \<in> set ns. v < 24"
  by (simp add: mesh24_def)

lemma generated_ids_in_range:
  "neighbor_ids_in_range (GenerateWalkerDeltaTopology numSats neighborsPerSat)"
proof (cases "(numSats, neighborsPerSat) = (24, 4)")
  case True
  then show ?thesis using mesh24_ids by (simp add: topology24 neighbor_ids_in_range_def)
next
  case False
  then have "neighbors (GenerateWalkerDeltaTopology numSats neighborsPerSat) = []"
    by (auto simp: GenerateWalkerDeltaTopology_def Let_def)
  then show ?thesis by (simp add: neighbor_ids_in_range_def)
qed

text \<open>A one-satellite topology whose only neighbour vector names a node that does not exist.\<close>

definition bad_topology :: IslTopology where
  "bad_topology = \<lparr>numSatellites = 1, numLinks = 0, neighbors = [(0, [5])]\<rparr>"

lemma bad_topology_routes: "ComputeStaticRoutes bad_topology = Some (Inl OutOfBounds)"
proof -
  have top: "pq_top [(0, 0)] = (0, 0)" and pop: "pq_pop [(0, 0)] = []"
    by (simp_all add: pq_top_def pq_pop_def)
  have "dijkstra_loop bad_topology [0] [UINT32_MAX] [False] [(0, 0)] = Inl OutOfBounds"
    by (subst dijkstra_loop.simps) (simp add: top pop bad_topology_def)
  then have "dijkstra_from bad_topology 0 = Inl OutOfBounds"
    by (simp add: dijkstra_from_def bad_topology_def pq_push_def)
  then show ?thesis
    by (simp add: ComputeStaticRoutes_def bad_topology_def)
qed

lemma bad_topology_BFS: "BFS bad_topology 0 = Inr [True]"
  by (simp add: BFS_def bad_topology_def)

lemma bad_topology_Dijkstra: "Dijkstra bad_topology 0 = Inr [0]"
  by (simp add: Dijkstra_def bad_topology_def INF_dist_def UINT32_MAX_def)

text \<open>
  Claim C9. For every topology in which every neighbour id of every neighbour vector is
  below \<open>numSatellites\<close> (a \<open>uint32_t\<close>), \<open>ComputeStaticRoutes\<close> returns normally: no index
  into \<open>dist\<close>, \<open>prev\<close> or \<open>visited\<close> is out of range. Every topology of
  \<open>GenerateWalkerDeltaTopology\<close> is such a topology. The function has no bound check of
  its own: on \<open>bad_topology\<close> its relaxation step indexes out of range, while \<open>BFS\<close> and
  \<open>Dijkstra\<close> skip the neighbour.
\<close>

theorem C9_relaxation_in_bounds:
  "(neighbor_ids_in_range t \<and> numSatellites t < 2 ^ 32
      \<longrightarrow> (\<exists>routes. ComputeStaticRoutes t = Some (Inr routes))) \<and>
   neighbor_ids_in_range (GenerateWalkerDeltaTopology numSats neighborsPerSat) \<and>
   ComputeStaticRoutes bad_topology = Some (Inl OutOfBounds) \<and>
   BFS bad_topology 0 = Inr [True] \<and> Dijkstra bad_topology 0 = Inr [0]"
proof (intro conjI impI)
  assume a: "neighbor_ids_in_range t \<and> numSatellites t < 2 ^ 32"
  then have "neighbors_in_range t" by (simp add: neighbor_ids_in_range_nbrs)
  moreover have "numSatellites t \<le> UINT32_MAX" using a by (simp add: UINT32_MAX_def)
  ultimately show "\<exists>routes. ComputeStaticRoutes t = Some (Inr routes)"
    using ComputeStaticRoutes_spec by blast
qed (simp_all add: generated_ids_in_range bad_topology_routes bad_topology_BFS
       bad_topology_Dijkstra)

theorem C9_relaxation_in_bounds_witness:
  "\<exists>routes. ComputeStaticRoutes (GenerateWalkerDeltaTopology 24 4) = Some (Inr routes)"
proof -
  have "numSatellites (GenerateWalkerDeltaTopology 24 4) < 2 ^ 32"
    by (simp add: topology24)
  with C9_relaxation_in_bounds [of "GenerateWalkerDeltaTopology 24 4" 24 4]
  show ?thesis by blast
qed

theorem C8_no_self_routes_witness:
  "\<exists>routes. ComputeStaticRoutes (GenerateWalkerDeltaTopology 24 4) = Some (Inr routes) \<and>
     GetNextHop routes 7 7 = UINT32_MAX"
proof -
  have "neighbors_in_range (GenerateWalkerDeltaTopology 24 4)"
    using generated_ids_in_range by (rule neighbor_ids_in_range_nbrs)
  moreover have "numSatellites (GenerateWalkerDeltaTopology 24 4) \<le> UINT32_MAX"
    by (simp add: topology24 UINT32_MAX_def)
  ultimately obtain routes where
    r: "ComputeStaticRoutes (GenerateWalkerDeltaTopology 24 4) = Some (Inr routes)"
    using ComputeStaticRoutes_spec by blast
  from C8_no_self_routes [OF r, of 7] r show ?thesis by blast
qed

subsection \<open>Routing correctness\<close>

text \<open>
  The walk of next hops from \<open>src\<close> to a reachable \<open>dst\<close> takes the least number of
  hops, every hop goes to a neighbour, and \<open>GetHopCount\<close> returns that number up to its
  limit of 100 hops.
\<close>

lemma routing_correct:
  assumes ok: "ComputeStaticRoutes t = Some (Inr routes)"
    and nmax: "numSatellites t < 2 ^ 32"
    and src: "src < numSatellites t" and ne: "src \<noteq> dst" and w: "walk t src k dst"
  shows "\<exists>d. hop_dist t src dst d \<and> 0 < d \<and> d \<le> k \<and>
     hop_walk routes dst src d = dst \<and>
     (\<forall>i < d. hop_walk routes dst src i \<noteq> dst \<and>
        hop_walk routes dst src (Suc i) \<in> set (nbrs_of t (hop_walk routes dst src i))) \<and>
     GetHopCount routes src dst = (if d \<le> 100 then d else UINT32_MAX)"
proof -
  note R = ComputeStaticRoutes_rows [OF ok nmax]
  have nle: "numSatellites t \<le> UINT32_MAX" using nmax by (simp add: UINT32_MAX_def)
  from hop_dist_exists [OF w] obtain d where d: "hop_dist t src dst d" by blast
  have dk: "d \<le> k" using d w by (simp add: hop_dist_def)
  have dpos: "0 < d"
  proof (rule ccontr)
    assume "\<not> 0 < d"
    then have "walk t src 0 dst" using d by (simp add: hop_dist_def)
    with ne show False by simp
  qed
  note C = hop_chain [OF R(2) d src]
  have "GetHopCount routes src dst = (if d \<le> 100 then d else UINT32_MAX)"
  proof (cases "d \<le> 100")
    case True
    have "hop_loop routes dst src {} 0 = 0 + d"
      using True by (intro hop_loop_dist [OF R(2) nle d src]) simp_all
    then show ?thesis using True ne by (simp add: GetHopCount_def)
  next
    case False
    have "hop_loop routes dst src {} 0 = UINT32_MAX"
      using False by (intro hop_loop_far [OF R(2) d src]) simp_all
    then show ?thesis using False ne by (simp add: GetHopCount_def)
  qed
  with d dpos dk C show ?thesis by blast
qed

subsection \<open>A chain of satellites\<close>

text \<open>
  The chain \<open>0 - 1 - ... - (n - 1)\<close>: every satellite is linked with the one before and
  the one after it.
\<close>

definition line_topology :: "nat \<Rightarrow> IslTopology" where
  "line_topology n =
     \<lparr>numSatellites = n, numLinks = n - 1,
      neighbors = map (\<lambda>i. (i, (if 0 < i then [i - 1] else []) @
                                (if i + 1 < n then [i + 1] else []))) [0..<n]\<rparr>"

lemma map_of_upt: "map_of (map (\<lambda>i. (i, f i)) [0..<n]) i = (if i < n then Some (f i) else None)"
  by (induction n) (auto simp: map_add_def less_Suc_eq)

lemma nbrs_of_line:
  "nbrs_of (line_topology n) i =
     (if i < n then (if 0 < i then [i - 1] else []) @ (if i + 1 < n then [i + 1] else []) else [])"
  by (simp add: nbrs_of_def line_topology_def map_of_upt)

lemma line_in_range: "neighbors_in_range (line_topology n)"
  unfolding neighbors_in_range_def
  by (auto simp: nbrs_of_line) (simp_all add: line_topology_def)

lemma line_walk_le: "walk (line_topology n) a j b \<Longrightarrow> b \<le> a + j"
proof (induction j arbitrary: a)
  case 0
  then show ?case by simp
next
  case (Suc j)
  from Suc.prems obtain u where u: "u \<in> set (nbrs_of (line_topology n) a)"
    "walk (line_topology n) u j b" by auto
  have "u \<le> a + 1" using u(1) by (auto simp: nbrs_of_line split: if_splits)
  with Suc.IH [OF u(2)] show ?case by simp
qed

lemma line_walk_up: "a + j < n \<Longrightarrow> walk (line_topology n) a j (a + j)"
proof (induction j arbitrary: a)
  case 0
  then show ?case by simp
next
  case (Suc j)
  then have "Suc a + j < n" by simp
  from Suc.IH [OF this] have "walk (line_topology n) (Suc a) j (a + Suc j)" by simp
  moreover have "Suc a \<in> set (nbrs_of (line_topology n) a)"
    using Suc.prems by (simp add: nbrs_of_line)
  ultimately show ?case by auto
qed

text \<open>
  Claim C1, as stated, fails on the chain of 102 satellites: satellite 101 is reachable
  from satellite 0, the least number of hops is 101, and \<open>GetHopCount\<close> returns
  \<open>UINT32_MAX\<close> because its loop gives up after 100 hops.
\<close>

theorem C1_counterexample:
  "\<exists>routes. ComputeStaticRoutes (line_topology 102) = Some (Inr routes) \<and>
     walk (line_topology 102) 0 101 101 \<and>
     \<not> (\<exists>j < 101. walk (line_topology 102) 0 j 101) \<and>
     GetHopCount routes 0 101 = UINT32_MAX \<and> UINT32_MAX \<noteq> 101"
proof -
  let ?t = "line_topology 102"
  have n: "numSatellites ?t = 102" by (simp add: line_topology_def)
  have nle: "numSatellites ?t \<le> UINT32_MAX" by (simp add: n UINT32_MAX_def)
  from ComputeStaticRoutes_spec [OF line_in_range nle] obtain routes where
    r: "ComputeStaticRoutes ?t = Some (Inr routes)"
    and rows: "\<forall>src < numSatellites ?t. row_ok ?t routes src"
    by blast
  have up: "walk ?t 0 101 101" using line_walk_up [of 0 101 102] by simp
  have least: "\<not> (\<exists>j < 101. walk ?t 0 j 101)"
  proof
    assume "\<exists>j < 101. walk ?t 0 j 101"
    then obtain j where j: "j < 101" "walk ?t 0 j 101" by blast
    from line_walk_le [OF j(2)] j(1) show False by simp
  qed
  have hd: "hop_dist ?t 0 101 101"
    unfolding hop_dist_def using up least by (meson not_le_imp_less)
  have "hop_loop routes 101 0 {} 0 = UINT32_MAX"
    by (intro hop_loop_far [OF rows hd]) (simp_all add: n)
  then have "GetHopCount routes 0 101 = UINT32_MAX" by (simp add: GetHopCount_def)
  moreover have "UINT32_MAX \<noteq> 101" by (simp add: UINT32_MAX_def)
  ultimately show ?thesis using r up least by blast
qed

text \<open>
  Claim C1, amended. For every topology on which \<open>ComputeStaticRoutes\<close> returns (its
  neighbour ids are in range) with \<open>numSatellites\<close> a \<open>uint32_t\<close>, every node
  \<open>src < numSatellites\<close> and every \<open>dst \<noteq> src\<close> reachable from \<open>src\<close>: there is a number
  \<open>d\<close> of hops, which is the length of a shortest walk from \<open>src\<close> to \<open>dst\<close> and hence at
  most every bound on the diameter, such that applying \<open>GetNextHop\<close> \<open>d\<close> times from \<open>src\<close>
  reaches \<open>dst\<close> and not earlier, every step going to a neighbour of the node before;
  and \<open>GetHopCount\<close> returns \<open>d\<close> when \<open>d\<close> is at most 100, and \<open>UINT32_MAX\<close> otherwise.
\<close>

theorem C1_routing_correct:
  assumes "ComputeStaticRoutes t = Some (Inr routes)"
    and "numSatellites t < 2 ^ 32"
    and "src < numSatellites t" and "src \<noteq> dst" and "walk t src k dst"
  shows "\<exists>d. walk t src d dst \<and> (\<forall>j. walk t src j dst \<longrightarrow> d \<le> j) \<and>
     (\<forall>D. diameter_bound t D \<longrightarrow> d \<le> D) \<and>
     hop_walk routes dst src d = dst \<and>
     (\<forall>i < d. hop_walk routes dst src i \<noteq> dst \<and>
        hop_walk routes dst src (Suc i) \<in> set (nbrs_of t (hop_walk routes dst src i))) \<and>
     GetHopCount routes src dst = (if d \<le> 100 then d else UINT32_MAX)"
proof -
  from routing_correct [OF assms] obtain d where
    d: "hop_dist t src dst d"
    and walk: "hop_walk routes dst src d = dst"
      "\<forall>i < d. hop_walk routes dst src i \<noteq> dst \<and>
        hop_walk routes dst src (Suc i) \<in> set (nbrs_of t (hop_walk routes dst src i))"
    and cnt: "GetHopCount routes src dst = (if d \<le> 100 then d else UINT32_MAX)"
    by blast
  have w: "walk t src d dst" and least: "\<forall>j. walk t src j dst \<longrightarrow> d \<le> j"
    using d by (simp_all add: hop_dist_def)
  have "\<forall>D. diameter_bound t D \<longrightarrow> d \<le> D"
  proof (intro allI impI)
    fix D assume "diameter_bound t D"
    then obtain i where "i \<le> D" "walk t src i dst"
      using assms(3) w unfolding diameter_bound_def by blast
    with least show "d \<le> D" by fastforce
  qed
  with w least walk cnt show ?thesis by blast
qed

theorem C1_routing_correct_witness:
  "\<exists>routes. ComputeStaticRoutes (GenerateWalkerDeltaTopology 24 4) = Some (Inr routes) \<and>
     GetNextHop routes 0 1 = 1 \<and> GetHopCount routes 0 1 = 1"
proof -
  let ?t = "GenerateWalkerDeltaTopology 24 4"
  have range: "neighbors_in_range ?t"
    using generated_ids_in_range by (rule neighbor_ids_in_range_nbrs)
  have n: "numSatellites ?t = 24" by (simp add: topology24)
  have "numSatellites ?t \<le> UINT32_MAX" by (simp add: n UINT32_MAX_def)
  from ComputeStaticRoutes_spec [OF range this] obtain routes where
    r: "ComputeStaticRoutes ?t = Some (Inr routes)" by blast
  have nb: "nbrs_of ?t 0 = [1, 7, 8, 16]"
    by (simp add: topology24 nbrs_of_def mesh24_def)
  have w: "walk ?t 0 (Suc 0) 1" by (simp add: nb)
  have h: "numSatellites ?t < 2 ^ 32" "0 < numSatellites ?t" "(0::nat) \<noteq> 1"
    by (simp_all add: n)
  from C1_routing_correct [OF r h w] obtain d where
    d: "walk ?t 0 d 1" "\<forall>j. walk ?t 0 j 1 \<longrightarrow> d \<le> j"
      "hop_walk routes 1 0 d = 1"
      "GetHopCount routes 0 1 = (if d \<le> 100 then d else UINT32_MAX)"
    by blast
  have "d \<le> Suc 0" using d(2) w by blast
  moreover have "d \<noteq> 0" using d(1) by (cases d) simp_all
  ultimately have d1: "d = Suc 0" by simp
  have "GetNextHop routes 0 1 = 1" using d(3) d1 by simp
  moreover have "GetHopCount routes 0 1 = 1" using d(4) d1 by simp
  ultimately show ?thesis using r by blast
qed

section \<open>The validated constellation\<close>

subsection \<open>Evaluation on explicit lists\<close>

lemma list_update_numeral: "(x # xs)[numeral k := y] = x # xs[pred_numeral k := y]"
  by (simp add: numeral_eq_Suc)

lemma upt_0_24:
  "[0..<24] = [0, 1, 2, 3, 4, 5, 6, 7, 8, 9, 10, 11, 12, 13, 14, 15, 16, 17, 18, 19, 20, 21,
     22, 23::nat]"
  by code_simp

lemma replicate_24:
  "replicate 24 x = [x, x, x, x, x, x, x, x, x, x, x, x, x, x, x, x, x, x, x, x, x, x, x, x]"
  by (simp add: numeral_eq_Suc)

lemma less_24_cases:
  "u < 24 \<Longrightarrow> u \<in> set [0, 1, 2, 3, 4, 5, 6, 7, 8, 9, 10, 11, 12, 13, 14, 15, 16, 17, 18, 19,
     20, 21, 22, 23::nat]"
  using upt_0_24 by (metis atLeastLessThan_iff set_upt zero_le)

subsection \<open>Breadth-first search reaches reachable nodes only\<close>




subsection \<open>The 24 satellites are connected\<close>

lemma BFS_mesh24_a:
  "list_all (\<lambda>src. BFS (GenerateWalkerDeltaTopology 24 4) src = Inr (replicate 24 True))
     [0, 1, 2, 3, 4, 5, 6, 7]"
  by (simp add: BFS_def topology24 mesh24_def replicate_24 list_update_numeral)

lemma BFS_mesh24_b:
  "list_all (\<lambda>src. BFS (GenerateWalkerDeltaTopology 24 4) src = Inr (replicate 24 True))
     [8, 9, 10, 11, 12, 13, 14, 15]"
  by (simp add: BFS_def topology24 mesh24_def replicate_24 list_update_numeral)

lemma BFS_mesh24_c:
  "list_all (\<lambda>src. BFS (GenerateWalkerDeltaTopology 24 4) src = Inr (replicate 24 True))
     [16, 17, 18, 19, 20, 21, 22, 23]"
  by (simp add: BFS_def topology24 mesh24_def replicate_24 list_update_numeral)

lemma BFS_mesh24:
  "list_all (\<lambda>src. BFS (GenerateWalkerDeltaTopology 24 4) src = Inr (replicate 24 True))
     [0, 1, 2, 3, 4, 5, 6, 7, 8, 9, 10, 11, 12, 13, 14, 15, 16, 17, 18, 19, 20, 21, 22, 23]"
  using BFS_mesh24_a BFS_mesh24_b BFS_mesh24_c by simp

lemma BFS_mesh24_all:
  "src < 24 \<Longrightarrow> BFS (GenerateWalkerDeltaTopology 24 4) src = Inr (replicate 24 True)"
  using BFS_mesh24 less_24_cases [of src] unfolding list_all_iff by blast


subsection \<open>Degree, link count, first route and connectivity ratio\<close>

lemma mesh24_neighbors:
  "list_all (\<lambda>u. nbrs_of (GenerateWalkerDeltaTopology 24 4) u =
       [u div 8 * 8 + (u mod 8 + 1) mod 8, u div 8 * 8 + (u mod 8 + 7) mod 8,
        (u div 8 + 1) mod 3 * 8 + u mod 8, (u div 8 + 2) mod 3 * 8 + u mod 8] \<and>
       distinct (nbrs_of (GenerateWalkerDeltaTopology 24 4) u))
     [0, 1, 2, 3, 4, 5, 6, 7, 8, 9, 10, 11, 12, 13, 14, 15, 16, 17, 18, 19, 20, 21, 22, 23]"
  by (simp add: topology24 mesh24_def nbrs_of_def)

lemma mesh24_degree:
  assumes "u < 24"
  shows "nbrs_of (GenerateWalkerDeltaTopology 24 4) u =
       [u div 8 * 8 + (u mod 8 + 1) mod 8, u div 8 * 8 + (u mod 8 + 7) mod 8,
        (u div 8 + 1) mod 3 * 8 + u mod 8, (u div 8 + 2) mod 3 * 8 + u mod 8] \<and>
       distinct (nbrs_of (GenerateWalkerDeltaTopology 24 4) u)"
  using less_24_cases [OF assms] mesh24_neighbors unfolding list_all_iff by blast

lemma mesh24_size:
  "numSatellites (GenerateWalkerDeltaTopology 24 4) = 24"
  "numLinks (GenerateWalkerDeltaTopology 24 4) = 48"
  by (simp_all add: topology24)

lemma mesh24_total_pairs: "totalPairs (GenerateWalkerDeltaTopology 24 4) = 552"
  by (simp add: totalPairs_def mesh24_size)

lemma mesh24_reachable_pairs:
  "count_reachable_pairs (GenerateWalkerDeltaTopology 24 4) [0..<24] 0 = Inr 552"
  by (simp add: upt_0_24 BFS_mesh24_all)

lemma mesh24_connectivity: "ComputeMeshConnectivity (GenerateWalkerDeltaTopology 24 4) = Inr 1"
  by (simp add: ComputeMeshConnectivity_def mesh24_total_pairs mesh24_reachable_pairs
      mesh24_size)

lemma mesh24_routes:
  "\<exists>routes. ComputeStaticRoutes (GenerateWalkerDeltaTopology 24 4) = Some (Inr routes) \<and>
     (\<forall>src < 24. row_ok (GenerateWalkerDeltaTopology 24 4) routes src)"
proof -
  let ?t = "GenerateWalkerDeltaTopology 24 4"
  have range: "neighbors_in_range ?t"
    using generated_ids_in_range by (rule neighbor_ids_in_range_nbrs)
  have "numSatellites ?t \<le> UINT32_MAX" by (simp add: mesh24_size UINT32_MAX_def)
  from ComputeStaticRoutes_spec [OF range this] show ?thesis
    unfolding mesh24_size by blast
qed

lemma mesh24_first_route:
  "\<exists>routes. ComputeStaticRoutes (GenerateWalkerDeltaTopology 24 4) = Some (Inr routes) \<and>
     GetNextHop routes 0 1 = 1"
proof -
  let ?t = "GenerateWalkerDeltaTopology 24 4"
  from mesh24_routes obtain routes where
    r: "ComputeStaticRoutes ?t = Some (Inr routes)" by blast
  have nb: "nbrs_of ?t 0 = [1, 7, 8, 16]"
    by (simp add: topology24 nbrs_of_def mesh24_def)
  have w: "walk ?t 0 (Suc 0) 1" by (simp add: nb)
  have h: "numSatellites ?t < 2 ^ 32" "0 < numSatellites ?t" "(0::nat) \<noteq> 1"
    by (simp_all add: mesh24_size)
  from routing_correct [OF r h w] obtain d where
    d: "0 < d" "d \<le> Suc 0" "hop_walk routes 1 0 d = 1"
    by blast
  then have "d = Suc 0" by simp
  then have "GetNextHop routes 0 1 = 1" using d(3) by simp
  with r show ?thesis by blast
qed

text \<open>
  Claim C3. In the topology of \<open>GenerateWalkerDeltaTopology(24, 4)\<close> every one of the 24
  nodes has exactly four distinct neighbours: the next and the previous index in its own
  plane of 8, and the same index in the two other planes. \<open>numLinks\<close> is 48, the next
  hop from 0 to 1 after \<open>ComputeStaticRoutes\<close> is 1, and \<open>ComputeMeshConnectivity\<close>
  returns 1 (the quotient of 552 reachable pairs and 552 pairs).
\<close>

theorem C3_validated_mesh:
  "(\<forall>u < 24. nbrs_of (GenerateWalkerDeltaTopology 24 4) u =
       [u div 8 * 8 + (u mod 8 + 1) mod 8, u div 8 * 8 + (u mod 8 + 7) mod 8,
        (u div 8 + 1) mod 3 * 8 + u mod 8, (u div 8 + 2) mod 3 * 8 + u mod 8] \<and>
       distinct (nbrs_of (GenerateWalkerDeltaTopology 24 4) u)) \<and>
   numSatellites (GenerateWalkerDeltaTopology 24 4) = 24 \<and>
   numLinks (GenerateWalkerDeltaTopology 24 4) = 48 \<and>
   (\<exists>routes. ComputeStaticRoutes (GenerateWalkerDeltaTopology 24 4) = Some (Inr routes) \<and>
      GetNextHop routes 0 1 = 1) \<and>
   totalPairs (GenerateWalkerDeltaTopology 24 4) = 552 \<and>
   count_reachable_pairs (GenerateWalkerDeltaTopology 24 4) [0..<24] 0 = Inr 552 \<and>
   ComputeMeshConnectivity (GenerateWalkerDeltaTopology 24 4) = Inr 1"
  using mesh24_degree mesh24_size mesh24_first_route mesh24_total_pairs
    mesh24_reachable_pairs mesh24_connectivity
  by blast

theorem C3_validated_mesh_witness:
  "nbrs_of (GenerateWalkerDeltaTopology 24 4) 9 = [10, 8, 17, 1] \<and>
   length (nbrs_of (GenerateWalkerDeltaTopology 24 4) 9) = 4 \<and>
   numLinks (GenerateWalkerDeltaTopology 24 4) = 48 \<and>
   ComputeMeshConnectivity (GenerateWalkerDeltaTopology 24 4) = Inr 1"
proof -
  have "(9::nat) < 24" by simp
  with C3_validated_mesh have
    "nbrs_of (GenerateWalkerDeltaTopology 24 4) 9 =
       [9 div 8 * 8 + (9 mod 8 + 1) mod 8, 9 div 8 * 8 + (9 mod 8 + 7) mod 8,
        (9 div 8 + 1) mod 3 * 8 + 9 mod 8, (9 div 8 + 2) mod 3 * 8 + 9 mod 8]"
    by blast
  then have "nbrs_of (GenerateWalkerDeltaTopology 24 4) 9 = [10, 8, 17, 1]" by simp
  with C3_validated_mesh show ?thesis by simp
qed

section \<open>Route installation\<close>

subsection \<open>The outcome for one pair\<close>






subsection \<open>The two loops\<close>






subsection \<open>Every pair on its own\<close>










subsection \<open>The bindings that the build provides\<close>







subsection \<open>The full build on the 24-node mesh\<close>










subsection \<open>The claim\<close>



end
